theory Spec2Isabelle
  imports Main "HOL-Library.Word" "HOL-Library.Signed_Division" "HOL-Library.Product_Lexorder"
begin

section \<open>Machine types and kernel constants\<close>

text \<open>
  The driver is built for a 32-bit target: \<open>short\<close> is 16 bits, \<open>int\<close>,
  \<open>long\<close> and \<open>unsigned long\<close> are 32 bits. Arithmetic on words wraps;
  signed comparisons read a word with \<open>sint\<close> (written \<open><s\<close>, \<open>\<le>s\<close>).
\<close>

type_synonym short = "16 word"
type_synonym cint = "32 word"
type_synonym ulong = "32 word"

text \<open>
  Modelled from the spec: the specification names these constants
  (\<open>OLD_MIN\<close> for \<open>OOM_DISABLE\<close>, the legacy unit's maximum for
  \<open>OOM_ADJUST_MAX\<close>, \<open>SCORE_MAX\<close> for \<open>OOM_SCORE_ADJ_MAX\<close>); they are
  macros of \<open>linux/oom.h\<close>, a header of the kernel tree that is not among
  the sources at hand, and have the values below in that tree.
\<close>

definition OOM_DISABLE :: int where
  "OOM_DISABLE = - 17"

definition OOM_ADJUST_MAX :: int where
  "OOM_ADJUST_MAX = 15"

definition OOM_SCORE_ADJ_MAX :: int where
  "OOM_SCORE_ADJ_MAX = 1000"

text \<open>\<open>#define LOWMEM_DEATHPENDING_DEPTH 3\<close>, and \<open>ARRAY_SIZE(lowmem_adj)\<close>.\<close>

definition LOWMEM_DEATHPENDING_DEPTH :: nat where
  "LOWMEM_DEATHPENDING_DEPTH = 3"

definition ARRAY_SIZE_lowmem_adj :: int where
  "ARRAY_SIZE_lowmem_adj = 6"

section \<open>Module state\<close>

text \<open>
  The file-level variables of the driver. The four tables are C arrays of six
  elements; the two sizes are the element counts last written through the
  module parameters.
\<close>

record lowmem_state =
  lowmem_adj :: "short list"
  lowmem_adj_size :: int
  lowmem_minfree :: "cint list"
  lowmem_minfree_screen_off :: "cint list"
  lowmem_minfree_screen_on :: "cint list"
  lowmem_minfree_size :: int
  lowmem_deathpending_timeout :: ulong

section \<open>Screen profile switch\<close>

text \<open>
  \<open>low_mem_early_suspend\<close>: two \<open>memcpy\<close> calls over whole arrays, the
  second reading the table the first one did not write.
\<close>

definition low_mem_early_suspend :: "lowmem_state \<Rightarrow> lowmem_state" where
  "low_mem_early_suspend g =
     (let g1 = g\<lparr>lowmem_minfree_screen_on := lowmem_minfree g\<rparr>
      in g1\<lparr>lowmem_minfree := lowmem_minfree_screen_off g1\<rparr>)"

definition low_mem_late_resume :: "lowmem_state \<Rightarrow> lowmem_state" where
  "low_mem_late_resume g = g\<lparr>lowmem_minfree := lowmem_minfree_screen_on g\<rparr>"

section \<open>Legacy cutoff rescale\<close>

text \<open>
  \<open>lowmem_oom_adj_to_oom_score_adj\<close>: \<open>int\<close> arithmetic, the product
  wrapping at 32 bits, the division truncating towards zero as C's does.
\<close>

definition lowmem_oom_adj_to_oom_score_adj :: "cint \<Rightarrow> cint" where
  "lowmem_oom_adj_to_oom_score_adj oom_adj =
     (if sint oom_adj = OOM_ADJUST_MAX then word_of_int OOM_SCORE_ADJ_MAX
      else word_of_int (sint (oom_adj * word_of_int OOM_SCORE_ADJ_MAX) sdiv (- OOM_DISABLE)))"

text \<open>
  The conversion loop of \<open>lowmem_autodetect_oom_adj_values\<close>: entry \<open>i\<close> is
  read as \<open>int\<close> (sign extended), converted, and stored back as \<open>short\<close>
  (truncated to 16 bits).
\<close>

function autodetect_loop :: "short list \<Rightarrow> nat \<Rightarrow> nat \<Rightarrow> short list" where
  "autodetect_loop adj array_size i =
     (if i < array_size
      then autodetect_loop
             (adj[i := ucast (lowmem_oom_adj_to_oom_score_adj (scast (adj ! i)))])
             array_size (Suc i)
      else adj)"
  by pat_completeness auto
termination
  by (relation "measure (\<lambda>(adj, array_size, i). array_size - i)") auto

definition lowmem_autodetect_oom_adj_values :: "lowmem_state \<Rightarrow> lowmem_state" where
  "lowmem_autodetect_oom_adj_values g =
     (let array_size =
            (if lowmem_adj_size g < ARRAY_SIZE_lowmem_adj then lowmem_adj_size g
             else ARRAY_SIZE_lowmem_adj)
      in if array_size \<le> 0 then g
         else
           let oom_adj = (scast (lowmem_adj g ! nat (array_size - 1)) :: cint)
           in if OOM_ADJUST_MAX < sint oom_adj then g
              else
                let oom_score_adj = (ucast (lowmem_oom_adj_to_oom_score_adj oom_adj) :: short)
                in if sint oom_score_adj \<le> OOM_ADJUST_MAX then g
                   else g\<lparr>lowmem_adj := autodetect_loop (lowmem_adj g) (nat array_size) 0\<rparr>)"

section \<open>Inputs of a pass\<close>

text \<open>
  The counters read through \<open>global_page_state\<close>, and \<open>totalreserve_pages\<close>.
\<close>

record vm_stat =
  nr_free_pages :: ulong
  nr_file_pages :: ulong
  nr_shmem :: ulong
  nr_active_anon :: ulong
  nr_active_file :: ulong
  nr_inactive_anon :: ulong
  nr_inactive_file :: ulong
  totalreserve_pages :: ulong

text \<open>
  What \<open>lowmem_shrink\<close> reads of one entry of the process list:
  \<open>pf_kthread\<close> is \<open>tsk->flags & PF_KTHREAD\<close>; \<open>mm_rss\<close> is \<open>None\<close>
  when \<open>find_lock_task_mm\<close> returns \<open>NULL\<close> and otherwise holds
  \<open>get_mm_rss(p->mm)\<close>; \<open>tif_memdie\<close> is the \<open>TIF_MEMDIE\<close> thread flag;
  \<open>oom_score_adj\<close> is \<open>p->signal->oom_score_adj\<close>. A process is taken as
  one unit, so the task \<open>p\<close> that holds the memory is the entry itself.
\<close>

record task_struct =
  pid :: int
  pf_kthread :: bool
  mm_rss :: "ulong option"
  tif_memdie :: bool
  oom_score_adj :: short

text \<open>
  Modelled from the spec: the test that the deadline of a pending-death marker
  has not elapsed is the macro \<open>time_before_eq\<close> of \<open>linux/jiffies.h\<close>,
  a header that is not among the sources at hand; \<open>time_before_eq(a, b)\<close>
  is \<open>(long)(b) - (long)(a) >= 0\<close>, the difference wrapping at 32 bits.
\<close>

definition time_before_eq :: "ulong \<Rightarrow> ulong \<Rightarrow> bool" where
  "time_before_eq a b = (0 \<le>s b - a)"

section \<open>Threshold evaluation\<close>

text \<open>
  The test of one tier (lines 159 to 163): with \<open>CONFIG_VMWARE_MVP\<close> only the
  file pages are compared, without it both counts are.
\<close>

definition tier_breached :: "bool \<Rightarrow> cint \<Rightarrow> cint \<Rightarrow> cint \<Rightarrow> bool" where
  "tier_breached vmware_mvp other_free other_file minfree =
     (if vmware_mvp then other_file <s minfree
      else other_free <s minfree \<and> other_file <s minfree)"

datatype table_read = Read_minfree int | Read_adj int

record threshold_locals =
  loop_i :: int
  min_score_adj :: short
  target_free :: cint

text \<open>
  The loop \<open>for (i = 0; i < array_size; i++)\<close> of \<open>lowmem_shrink\<close>, from
  counter \<open>i\<close> on. It returns the locals as they stand after the loop
  (\<open>min_score_adj\<close> and \<open>target_free\<close> keep their initial values
  \<open>OOM_SCORE_ADJ_MAX + 1\<close> and \<open>0\<close> when no tier matches), together with
  the indices at which the two tables were read, in order.
\<close>

function threshold_loop ::
  "bool \<Rightarrow> lowmem_state \<Rightarrow> cint \<Rightarrow> cint \<Rightarrow> int \<Rightarrow> int \<Rightarrow> threshold_locals \<times> table_read list"
where
  "threshold_loop vmware_mvp g other_free other_file array_size i =
     (if i < array_size
      then
        (if tier_breached vmware_mvp other_free other_file (lowmem_minfree g ! nat i)
         then (\<lparr>loop_i = i,
                 min_score_adj = lowmem_adj g ! nat i,
                 target_free = lowmem_minfree g ! nat i - (other_free + other_file)\<rparr>,
               [Read_minfree i, Read_adj i])
         else
           (let (l, reads) =
                  threshold_loop vmware_mvp g other_free other_file array_size (i + 1)
            in (l, Read_minfree i # reads)))
      else (\<lparr>loop_i = i,
              min_score_adj = word_of_int (OOM_SCORE_ADJ_MAX + 1),
              target_free = 0\<rparr>, []))"
  by pat_completeness auto
termination
  by (relation "measure (\<lambda>(vmware_mvp, g, other_free, other_file, array_size, i).
                  nat (array_size - i))") auto

text \<open>Lines 149 to 156: the effective table length.\<close>

definition effective_array_size :: "lowmem_state \<Rightarrow> int" where
  "effective_array_size g =
     (let array_size = ARRAY_SIZE_lowmem_adj;
          array_size = (if lowmem_adj_size g < array_size then lowmem_adj_size g
                        else array_size);
          array_size = (if lowmem_minfree_size g < array_size then lowmem_minfree_size g
                        else array_size)
      in array_size)"

definition other_free_of :: "vm_stat \<Rightarrow> cint" where
  "other_free_of vm = nr_free_pages vm - totalreserve_pages vm"

definition other_file_of :: "vm_stat \<Rightarrow> cint" where
  "other_file_of vm = nr_file_pages vm - nr_shmem vm"

definition threshold_eval ::
  "bool \<Rightarrow> lowmem_state \<Rightarrow> vm_stat \<Rightarrow> threshold_locals \<times> table_read list" where
  "threshold_eval vmware_mvp g vm =
     threshold_loop vmware_mvp g (other_free_of vm) (other_file_of vm)
       (effective_array_size g) 0"

section \<open>Victim selection\<close>

text \<open>The candidate pool: the \<open>ENHANCED_LMK_ROUTINE\<close> locals of \<open>lowmem_shrink\<close>.\<close>

record selection =
  selected :: "task_struct option list"
  selected_tasksize :: "cint list"
  selected_oom_score_adj :: "short list"
  all_selected_oom :: nat
  max_selected_oom_idx :: nat

text \<open>
  The locals when the scan starts: no slot taken, sizes \<open>0\<close>, and every score
  set to \<open>min_score_adj\<close> by the loop of lines 184 and 185.
\<close>

definition init_selection :: "short \<Rightarrow> selection" where
  "init_selection msa =
     \<lparr>selected = replicate LOWMEM_DEATHPENDING_DEPTH None,
      selected_tasksize = replicate LOWMEM_DEATHPENDING_DEPTH 0,
      selected_oom_score_adj = replicate LOWMEM_DEATHPENDING_DEPTH msa,
      all_selected_oom = 0,
      max_selected_oom_idx = 0\<rparr>"

text \<open>Lines 225 to 231: the first slot that is still \<open>NULL\<close>, if any.\<close>

fun first_free_slot :: "task_struct option list \<Rightarrow> nat list \<Rightarrow> nat option" where
  "first_free_slot sel [] = None"
| "first_free_slot sel (i # is) =
     (if sel ! i = None then Some i else first_free_slot sel is)"

text \<open>
  Lines 247 to 253: the slot with the lowest score, the smaller size among
  equal scores, searched from the current \<open>max_selected_oom_idx\<close>.
\<close>

fun weakest_loop :: "short list \<Rightarrow> cint list \<Rightarrow> nat list \<Rightarrow> nat \<Rightarrow> nat" where
  "weakest_loop adjs sizes [] m = m"
| "weakest_loop adjs sizes (i # is) m =
     weakest_loop adjs sizes is
       (if adjs ! i <s adjs ! m then i
        else if adjs ! i = adjs ! m \<and> sizes ! i <s sizes ! m then i
        else m)"

text \<open>Lines 224 to 257: one candidate \<open>p\<close> offered to the pool.\<close>

definition select_task :: "task_struct \<Rightarrow> short \<Rightarrow> cint \<Rightarrow> selection \<Rightarrow> selection" where
  "select_task p adj tasksize s =
     (let m = max_selected_oom_idx s;
          (is_exist_oom_task, idx) =
            (if all_selected_oom s < LOWMEM_DEATHPENDING_DEPTH
             then (case first_free_slot (selected s) [0..<LOWMEM_DEATHPENDING_DEPTH] of
                     Some i \<Rightarrow> (True, i)
                   | None \<Rightarrow> (False, m))
             else if selected_oom_score_adj s ! m <s adj
                     \<or> (selected_oom_score_adj s ! m = adj
                         \<and> selected_tasksize s ! m <s tasksize)
                  then (True, m)
                  else (False, m))
      in if is_exist_oom_task
         then
           (let s1 = s\<lparr>selected := (selected s)[idx := Some p],
                       selected_tasksize := (selected_tasksize s)[idx := tasksize],
                       selected_oom_score_adj := (selected_oom_score_adj s)[idx := adj],
                       max_selected_oom_idx := idx\<rparr>;
                s2 = (if all_selected_oom s1 < LOWMEM_DEATHPENDING_DEPTH
                      then s1\<lparr>all_selected_oom := all_selected_oom s1 + 1\<rparr>
                      else s1)
            in if all_selected_oom s2 = LOWMEM_DEATHPENDING_DEPTH
               then s2\<lparr>max_selected_oom_idx :=
                         weakest_loop (selected_oom_score_adj s2) (selected_tasksize s2)
                           [0..<LOWMEM_DEATHPENDING_DEPTH] (max_selected_oom_idx s2)\<rparr>
               else s2)
         else s)"

text \<open>
  Lines 198 to 257: the body of \<open>for_each_process\<close> for one entry.
  \<open>None\<close> is the \<open>return 0\<close> of line 209; \<open>Some\<close> carries the pool on to
  the next entry (every \<open>continue\<close>, and the end of the body).
\<close>

definition scan_task ::
  "ulong \<Rightarrow> ulong \<Rightarrow> short \<Rightarrow> task_struct \<Rightarrow> selection \<Rightarrow> selection option" where
  "scan_task jiffies timeout msa tsk s =
     (if pf_kthread tsk then Some s
      else
        (case mm_rss tsk of
           None \<Rightarrow> Some s
         | Some rss \<Rightarrow>
             if tif_memdie tsk \<and> time_before_eq jiffies timeout then None
             else if oom_score_adj tsk <s msa then Some s
             else
               (let tasksize = (rss :: cint)
                in if tasksize \<le>s 0 then Some s
                   else Some (select_task tsk (oom_score_adj tsk) tasksize s))))"

fun for_each_process ::
  "ulong \<Rightarrow> ulong \<Rightarrow> short \<Rightarrow> task_struct list \<Rightarrow> selection \<Rightarrow> selection option" where
  "for_each_process jiffies timeout msa [] s = Some s"
| "for_each_process jiffies timeout msa (tsk # tasks) s =
     (case scan_task jiffies timeout msa tsk s of
        None \<Rightarrow> None
      | Some s' \<Rightarrow> for_each_process jiffies timeout msa tasks s')"

section \<open>Killing the selected processes\<close>

text \<open>
  What a pass leaves behind: the value returned, the processes that were sent
  \<open>SIGKILL\<close> and marked \<open>TIF_MEMDIE\<close> (in the order of the calls), and the
  module state.
\<close>

record shrink_result =
  ret :: cint
  killed :: "task_struct list"
  state_after :: lowmem_state

text \<open>Lines 273 to 283, over the slot indices still to visit.\<close>

fun kill_loop ::
  "ulong \<Rightarrow> ulong \<Rightarrow> selection \<Rightarrow> nat list \<Rightarrow> shrink_result \<Rightarrow> shrink_result" where
  "kill_loop jiffies hz s [] r = r"
| "kill_loop jiffies hz s (i # is) r =
     kill_loop jiffies hz s is
       (case selected s ! i of
          None \<Rightarrow> r
        | Some p \<Rightarrow>
            r\<lparr>ret := ret r - selected_tasksize s ! i,
              killed := killed r @ [p],
              state_after := (state_after r)\<lparr>lowmem_deathpending_timeout := jiffies + hz\<rparr>\<rparr>)"

section \<open>The shrinker callback\<close>

text \<open>
  \<open>lowmem_shrink\<close>. \<open>vmware_mvp\<close> stands for the build option
  \<open>CONFIG_VMWARE_MVP\<close>, \<open>hz\<close> for \<open>HZ\<close>, \<open>nr_to_scan\<close> for
  \<open>sc->nr_to_scan\<close> (an \<open>unsigned long\<close>, so \<open>nr_to_scan <= 0\<close> holds at
  \<open>0\<close> only). The \<open>lowmem_print\<close> calls have no effect on the result.
\<close>

definition lowmem_shrink ::
  "bool \<Rightarrow> ulong \<Rightarrow> lowmem_state \<Rightarrow> vm_stat \<Rightarrow> ulong \<Rightarrow> task_struct list \<Rightarrow> ulong
     \<Rightarrow> shrink_result" where
  "lowmem_shrink vmware_mvp hz g vm jiffies tasks nr_to_scan =
     (let (l, reads) = threshold_eval vmware_mvp g vm;
          rem = nr_active_anon vm + nr_active_file vm
                + nr_inactive_anon vm + nr_inactive_file vm
      in if nr_to_scan \<le> 0 \<or> sint (min_score_adj l) = OOM_SCORE_ADJ_MAX + 1
         then \<lparr>ret = rem, killed = [], state_after = g\<rparr>
         else
           (case for_each_process jiffies (lowmem_deathpending_timeout g) (min_score_adj l)
                   tasks (init_selection (min_score_adj l)) of
              None \<Rightarrow> \<lparr>ret = 0, killed = [], state_after = g\<rparr>
            | Some s \<Rightarrow>
                kill_loop jiffies hz s [0..<LOWMEM_DEATHPENDING_DEPTH]
                  \<lparr>ret = rem, killed = [], state_after = g\<rparr>))"

section \<open>The terms of the specification\<close>

text \<open>
  A process passes the eligibility filters for a cutoff score: it is not
  kernel-owned, its score is at least the cutoff, and it has resident pages
  (its memory is accessible and the page count, read as \<open>int\<close>, is positive).
\<close>

definition tasksize_of :: "task_struct \<Rightarrow> cint" where
  "tasksize_of p = (case mm_rss p of None \<Rightarrow> 0 | Some rss \<Rightarrow> rss)"

definition eligible :: "short \<Rightarrow> task_struct \<Rightarrow> bool" where
  "eligible cutoff p =
     (\<not> pf_kthread p \<and> mm_rss p \<noteq> None \<and> cutoff \<le>s oom_score_adj p
      \<and> 0 <s tasksize_of p)"

text \<open>
  The tie-break order: \<open>q\<close> strictly dominates \<open>p\<close> when its score is higher,
  or the scores are equal and it is larger.
\<close>

definition dominates :: "task_struct \<Rightarrow> task_struct \<Rightarrow> bool" where
  "dominates q p =
     (oom_score_adj p <s oom_score_adj q
      \<or> (oom_score_adj p = oom_score_adj q \<and> tasksize_of p <s tasksize_of q))"

text \<open>The processes held in the pool.\<close>

definition pool_of :: "selection \<Rightarrow> task_struct list" where
  "pool_of s = concat (map (\<lambda>x. case x of None \<Rightarrow> [] | Some p \<Rightarrow> [p]) (selected s))"

text \<open>
  The pending-death guard of lines 205 and 206 fires on a process: the process
  reaches the test (it is not kernel-owned and its memory is accessible), it
  carries the marker, and the deadline has not elapsed.
\<close>

definition guard_fires :: "ulong \<Rightarrow> ulong \<Rightarrow> task_struct \<Rightarrow> bool" where
  "guard_fires jiffies timeout p =
     (\<not> pf_kthread p \<and> mm_rss p \<noteq> None \<and> tif_memdie p \<and> time_before_eq jiffies timeout)"

text \<open>The index a table read goes to.\<close>

definition read_index :: "table_read \<Rightarrow> int" where
  "read_index r = (case r of Read_minfree i \<Rightarrow> i | Read_adj i \<Rightarrow> i)"

text \<open>
  The rescale in the specification's words, \<open>new = old * SCORE_MAX / -OLD_MIN\<close>
  with the legacy maximum going to \<open>SCORE_MAX\<close>, computed on integers (the
  quotient truncated towards zero) and stored in a 16-bit score.
\<close>

definition legacy_rescale :: "short \<Rightarrow> short" where
  "legacy_rescale old =
     (if sint old = OOM_ADJUST_MAX then word_of_int OOM_SCORE_ADJ_MAX
      else word_of_int ((sint old * OOM_SCORE_ADJ_MAX) sdiv (- OOM_DISABLE)))"

section \<open>Example configurations\<close>

text \<open>The state the module starts in: the initialisers of the file-level variables.\<close>

definition initial_state :: lowmem_state where
  "initial_state =
     \<lparr>lowmem_adj = [0, 1, 6, 12, 16, 17],
      lowmem_adj_size = 6,
      lowmem_minfree = [1536, 2048, 4096, 5120, 8192, 16384],
      lowmem_minfree_screen_off = [1536, 2048, 4096, 5120, 8192, 16384],
      lowmem_minfree_screen_on = [1536, 2048, 4096, 5120, 8192, 16384],
      lowmem_minfree_size = 6,
      lowmem_deathpending_timeout = 0\<rparr>"

text \<open>
  The example of the file's header comment: \<open>0,8\<close> written to \<open>adj\<close> and
  \<open>1024,4096\<close> to \<open>minfree\<close>, two entries each.
\<close>

definition example_state :: lowmem_state where
  "example_state =
     initial_state\<lparr>lowmem_adj := [0, 8, 6, 12, 16, 17], lowmem_adj_size := 2,
                   lowmem_minfree := [1024, 4096, 4096, 5120, 8192, 16384],
                   lowmem_minfree_size := 2\<rparr>"

text \<open>A sample with the given free and file page counts, nothing reserved or shared.\<close>

definition vm_sample :: "ulong \<Rightarrow> ulong \<Rightarrow> vm_stat" where
  "vm_sample free file =
     \<lparr>nr_free_pages = free, nr_file_pages = file, nr_shmem = 0,
      nr_active_anon = 100, nr_active_file = 200,
      nr_inactive_anon = 300, nr_inactive_file = 400,
      totalreserve_pages = 0\<rparr>"

text \<open>A user process with accessible memory and no pending-death marker.\<close>

definition candidate :: "int \<Rightarrow> short \<Rightarrow> ulong \<Rightarrow> task_struct" where
  "candidate i adj rss =
     \<lparr>pid = i, pf_kthread = False, mm_rss = Some rss, tif_memdie = False,
      oom_score_adj = adj\<rparr>"

definition scenario_tasks :: "task_struct list" where
  "scenario_tasks =
     [candidate 1 5 10, candidate 2 5 50, candidate 3 8 10, candidate 4 8 20, candidate 5 9 5]"

text \<open>
  A victim of an earlier pass that still runs (\<open>dying_victim\<close>), and one that
  has already released its memory but is still on the process list
  (\<open>exited_victim\<close>).
\<close>

definition dying_victim :: task_struct where
  "dying_victim =
     \<lparr>pid = 6, pf_kthread = False, mm_rss = Some 40, tif_memdie = True, oom_score_adj = 9\<rparr>"

definition exited_victim :: task_struct where
  "exited_victim =
     \<lparr>pid = 7, pf_kthread = False, mm_rss = None, tif_memdie = True, oom_score_adj = 9\<rparr>"

text \<open>
  A cutoff table written in the legacy unit whose last entry, 12, is below the
  legacy maximum.
\<close>

definition legacy_state :: lowmem_state where
  "legacy_state = initial_state\<lparr>lowmem_adj := [0, 1, 2, 4, 9, 12]\<rparr>"

section \<open>The tie-break order as keys\<close>

text \<open>
  Score and size of a process, and of a pool slot, as a pair of integers under
  the lexicographic order; \<open>pool_inv es s\<close> is the invariant of the scan after
  the eligible processes \<open>es\<close> have been offered to the pool \<open>s\<close>.
\<close>

definition key :: "task_struct \<Rightarrow> int \<times> int" where
  "key p = (sint (oom_score_adj p), sint (tasksize_of p))"

definition akey :: "short list \<Rightarrow> cint list \<Rightarrow> nat \<Rightarrow> int \<times> int" where
  "akey adjs sizes i = (sint (adjs ! i), sint (sizes ! i))"

definition slot_key :: "selection \<Rightarrow> nat \<Rightarrow> int \<times> int" where
  "slot_key s i = akey (selected_oom_score_adj s) (selected_tasksize s) i"

definition pool_inv :: "task_struct list \<Rightarrow> selection \<Rightarrow> bool" where
  "pool_inv es s \<longleftrightarrow>
     length (selected s) = LOWMEM_DEATHPENDING_DEPTH
     \<and> length (selected_tasksize s) = LOWMEM_DEATHPENDING_DEPTH
     \<and> length (selected_oom_score_adj s) = LOWMEM_DEATHPENDING_DEPTH
     \<and> all_selected_oom s = min LOWMEM_DEATHPENDING_DEPTH (length es)
     \<and> (\<forall>i<LOWMEM_DEATHPENDING_DEPTH.
           if i < all_selected_oom s
           then (\<exists>p. selected s ! i = Some p \<and> p \<in> set es \<and> slot_key s i = key p)
           else selected s ! i = None)
     \<and> (all_selected_oom s = LOWMEM_DEATHPENDING_DEPTH \<longrightarrow>
           max_selected_oom_idx s < LOWMEM_DEATHPENDING_DEPTH
           \<and> (\<forall>i<LOWMEM_DEATHPENDING_DEPTH.
                 slot_key s (max_selected_oom_idx s) \<le> slot_key s i))
     \<and> (\<forall>q\<in>set es.
           Some q \<in> set (selected s)
           \<or> (all_selected_oom s = LOWMEM_DEATHPENDING_DEPTH
               \<and> key q \<le> slot_key s (max_selected_oom_idx s)))"

section \<open>Properties\<close>

subsection \<open>Threshold loop\<close>

declare threshold_loop.simps [simp del]

lemma threshold_loop_none:
  "(\<And>j. i \<le> j \<Longrightarrow> j < N \<Longrightarrow> \<not> tier_breached mvp F C (lowmem_minfree g ! nat j)) \<Longrightarrow>
   fst (threshold_loop mvp g F C N i) =
     \<lparr>loop_i = max i N, min_score_adj = word_of_int (OOM_SCORE_ADJ_MAX + 1), target_free = 0\<rparr>"
proof (induction mvp g F C N i rule: threshold_loop.induct)
  case (1 mvp g F C N i)
  show ?case
  proof (cases "i < N")
    case True
    then have nb: "\<not> tier_breached mvp F C (lowmem_minfree g ! nat i)"
      using "1.prems" by simp
    have "fst (threshold_loop mvp g F C N (i + 1)) =
       \<lparr>loop_i = max (i + 1) N, min_score_adj = word_of_int (OOM_SCORE_ADJ_MAX + 1), target_free = 0\<rparr>"
      using "1.IH" [OF True nb] "1.prems" by simp
    then show ?thesis
      using True nb by (subst threshold_loop.simps) (simp add: split_def max_def)
  next
    case False
    then show ?thesis by (subst threshold_loop.simps) (simp add: max_def)
  qed
qed

lemma threshold_loop_first:
  "i \<le> k \<Longrightarrow> k < N \<Longrightarrow> tier_breached mvp F C (lowmem_minfree g ! nat k) \<Longrightarrow>
   (\<And>j. i \<le> j \<Longrightarrow> j < k \<Longrightarrow> \<not> tier_breached mvp F C (lowmem_minfree g ! nat j)) \<Longrightarrow>
   fst (threshold_loop mvp g F C N i) =
     \<lparr>loop_i = k, min_score_adj = lowmem_adj g ! nat k,
      target_free = lowmem_minfree g ! nat k - (F + C)\<rparr>"
proof (induction mvp g F C N i rule: threshold_loop.induct)
  case (1 mvp g F C N i)
  have iN: "i < N" using "1.prems" by simp
  show ?case
  proof (cases "i = k")
    case True
    then show ?thesis
      using iN "1.prems"(3) by (subst threshold_loop.simps) simp
  next
    case False
    then have ik: "i < k" using "1.prems"(1) by simp
    then have nb: "\<not> tier_breached mvp F C (lowmem_minfree g ! nat i)"
      using "1.prems"(4) by simp
    have "fst (threshold_loop mvp g F C N (i + 1)) =
       \<lparr>loop_i = k, min_score_adj = lowmem_adj g ! nat k,
        target_free = lowmem_minfree g ! nat k - (F + C)\<rparr>"
      using "1.IH" [OF iN nb] ik "1.prems" by simp
    then show ?thesis
      using iN nb by (subst threshold_loop.simps) (simp add: split_def)
  qed
qed

lemma threshold_loop_reads:
  "r \<in> set (snd (threshold_loop mvp g F C N i)) \<Longrightarrow> i \<le> read_index r \<and> read_index r < N"
proof (induction mvp g F C N i rule: threshold_loop.induct)
  case (1 mvp g F C N i)
  show ?case
  proof (cases "i < N")
    case True
    show ?thesis
    proof (cases "tier_breached mvp F C (lowmem_minfree g ! nat i)")
      case b: True
      have "snd (threshold_loop mvp g F C N i) = [Read_minfree i, Read_adj i]"
        using True b by (subst threshold_loop.simps) simp
      then show ?thesis using "1.prems" True by (auto simp: read_index_def)
    next
      case nb: False
      have "snd (threshold_loop mvp g F C N i) =
              Read_minfree i # snd (threshold_loop mvp g F C N (i + 1))"
        using True nb by (subst threshold_loop.simps) (simp add: split_def Let_def)
      then have "r = Read_minfree i \<or> r \<in> set (snd (threshold_loop mvp g F C N (i + 1)))"
        using "1.prems" by simp
      then show ?thesis
        using "1.IH" [OF True nb] True by (auto simp: read_index_def)
    qed
  next
    case False
    then have "snd (threshold_loop mvp g F C N i) = []"
      by (subst threshold_loop.simps) simp
    then show ?thesis using "1.prems" by simp
  qed
qed

lemma sint_sentinel: "sint (word_of_int (OOM_SCORE_ADJ_MAX + 1) :: short) = OOM_SCORE_ADJ_MAX + 1"
  by (simp add: OOM_SCORE_ADJ_MAX_def)

subsection \<open>One step of the scan\<close>

lemma scan_task_cases:
  "scan_task jiffies timeout c p s =
     (if guard_fires jiffies timeout p then None
      else if eligible c p then Some (select_task p (oom_score_adj p) (tasksize_of p) s)
      else Some s)"
  by (auto simp: scan_task_def guard_fires_def eligible_def tasksize_of_def Let_def
        word_sle_eq word_sless_alt split: option.splits)

lemma for_each_process_abort:
  "p \<in> set tasks \<Longrightarrow> guard_fires jiffies timeout p \<Longrightarrow>
   for_each_process jiffies timeout c tasks s = None"
  by (induction tasks arbitrary: s) (auto simp: scan_task_cases split: option.splits)

lemma for_each_process_completes:
  "(\<And>p. p \<in> set tasks \<Longrightarrow> \<not> guard_fires jiffies timeout p) \<Longrightarrow>
   \<exists>s'. for_each_process jiffies timeout c tasks s = Some s'"
  by (induction tasks arbitrary: s) (auto simp: scan_task_cases split: option.splits)

subsection \<open>The pool keeps the strongest candidates\<close>

lemma word_eq_sint: "a = b \<longleftrightarrow> sint a = sint b"
  by (auto intro: signed_word_eqI)

lemma dominates_key: "dominates q p \<longleftrightarrow> key p < key q"
  by (auto simp: dominates_def key_def less_prod_def word_sless_alt word_eq_sint)

lemma weakest_step:
  "akey adjs sizes
     (if adjs ! i <s adjs ! m then i
      else if adjs ! i = adjs ! m \<and> sizes ! i <s sizes ! m then i else m)
   = min (akey adjs sizes i) (akey adjs sizes m)"
  by (auto simp: akey_def min_def less_eq_prod_def word_sless_alt word_eq_sint)

lemma weakest_loop_min:
  "(weakest_loop adjs sizes is m = m \<or> weakest_loop adjs sizes is m \<in> set is)
   \<and> akey adjs sizes (weakest_loop adjs sizes is m) \<le> akey adjs sizes m
   \<and> (\<forall>i\<in>set is. akey adjs sizes (weakest_loop adjs sizes is m) \<le> akey adjs sizes i)"
proof (induction "is" arbitrary: m)
  case Nil
  show ?case by simp
next
  case (Cons i "is")
  let ?m1 = "if adjs ! i <s adjs ! m then i
             else if adjs ! i = adjs ! m \<and> sizes ! i <s sizes ! m then i else m"
  have k1: "akey adjs sizes ?m1 = min (akey adjs sizes i) (akey adjs sizes m)"
    by (rule weakest_step)
  have m1: "?m1 = i \<or> ?m1 = m" by simp
  have w: "weakest_loop adjs sizes (i # is) m = weakest_loop adjs sizes is ?m1" by simp
  from Cons.IH [of ?m1]
  have ih: "(weakest_loop adjs sizes is ?m1 = ?m1 \<or> weakest_loop adjs sizes is ?m1 \<in> set is)"
       "akey adjs sizes (weakest_loop adjs sizes is ?m1) \<le> akey adjs sizes ?m1"
       "\<forall>j\<in>set is. akey adjs sizes (weakest_loop adjs sizes is ?m1) \<le> akey adjs sizes j"
    by blast+
  have le_i: "akey adjs sizes (weakest_loop adjs sizes is ?m1) \<le> akey adjs sizes i"
    using ih(2) unfolding k1 by simp
  have le_m: "akey adjs sizes (weakest_loop adjs sizes is ?m1) \<le> akey adjs sizes m"
    using ih(2) unfolding k1 by simp
  have mem: "weakest_loop adjs sizes is ?m1 = m \<or> weakest_loop adjs sizes is ?m1 \<in> set (i # is)"
    using ih(1) m1 by (metis list.set_intros(1) list.set_intros(2))
  show ?case
    unfolding w using mem le_i le_m ih(3) by simp
qed

lemma first_free_slot_upt:
  "a \<le> n \<Longrightarrow> n < b \<Longrightarrow> (\<And>i. a \<le> i \<Longrightarrow> i < n \<Longrightarrow> sel ! i \<noteq> None) \<Longrightarrow> sel ! n = None \<Longrightarrow>
   first_free_slot sel [a..<b] = Some n"
proof (induction "n - a" arbitrary: a)
  case 0
  then have "a = n" by simp
  then show ?case using 0 by (simp add: upt_conv_Cons)
next
  case (Suc d)
  then have an: "a < n" by simp
  then have ab: "a < b" using Suc.prems by simp
  have na: "sel ! a \<noteq> None" using Suc.prems(3) [of a] an by simp
  have "first_free_slot sel [Suc a..<b] = Some n"
    using Suc.hyps(1) [of "Suc a"] Suc.hyps(2) Suc.prems an by simp
  then show ?case using ab na by (auto simp add: upt_conv_Cons)
qed

lemma pool_inv_init: "pool_inv [] (init_selection c)"
  by (simp add: pool_inv_def init_selection_def LOWMEM_DEATHPENDING_DEPTH_def)

lemma replace_test:
  "(selected_oom_score_adj s ! m <s oom_score_adj p
    \<or> (selected_oom_score_adj s ! m = oom_score_adj p
        \<and> selected_tasksize s ! m <s tasksize_of p))
   \<longleftrightarrow> slot_key s m < key p"
  by (auto simp: slot_key_def akey_def key_def less_prod_def word_sless_alt word_eq_sint)

lemma select_task_fill:
  assumes "all_selected_oom s < LOWMEM_DEATHPENDING_DEPTH"
    and "first_free_slot (selected s) [0..<LOWMEM_DEATHPENDING_DEPTH] = Some n"
  shows "select_task p adj sz s =
           s\<lparr>selected := (selected s)[n := Some p],
             selected_tasksize := (selected_tasksize s)[n := sz],
             selected_oom_score_adj := (selected_oom_score_adj s)[n := adj],
             max_selected_oom_idx :=
               (if Suc (all_selected_oom s) = LOWMEM_DEATHPENDING_DEPTH
                then weakest_loop ((selected_oom_score_adj s)[n := adj])
                       ((selected_tasksize s)[n := sz]) [0..<LOWMEM_DEATHPENDING_DEPTH] n
                else n),
             all_selected_oom := Suc (all_selected_oom s)\<rparr>"
  using assms by (simp add: select_task_def Let_def)

lemma select_task_replace:
  assumes "all_selected_oom s = LOWMEM_DEATHPENDING_DEPTH"
    and "slot_key s (max_selected_oom_idx s) < key p"
  shows "select_task p (oom_score_adj p) (tasksize_of p) s =
           s\<lparr>selected := (selected s)[max_selected_oom_idx s := Some p],
             selected_tasksize := (selected_tasksize s)[max_selected_oom_idx s := tasksize_of p],
             selected_oom_score_adj :=
               (selected_oom_score_adj s)[max_selected_oom_idx s := oom_score_adj p],
             max_selected_oom_idx :=
               weakest_loop ((selected_oom_score_adj s)[max_selected_oom_idx s := oom_score_adj p])
                 ((selected_tasksize s)[max_selected_oom_idx s := tasksize_of p])
                 [0..<LOWMEM_DEATHPENDING_DEPTH] (max_selected_oom_idx s)\<rparr>"
  using assms(1) assms(2) [folded replace_test]
  by (simp add: select_task_def Let_def)

lemma select_task_keep:
  assumes "all_selected_oom s = LOWMEM_DEATHPENDING_DEPTH"
    and "\<not> slot_key s (max_selected_oom_idx s) < key p"
  shows "select_task p (oom_score_adj p) (tasksize_of p) s = s"
  using assms(1) assms(2) [folded replace_test]
  by (auto simp add: select_task_def Let_def)

lemma slot_key_update:
  "slot_key (s\<lparr>selected := sel, selected_tasksize := szs, selected_oom_score_adj := adjs,
               max_selected_oom_idx := m, all_selected_oom := c\<rparr>) i = akey adjs szs i"
  "slot_key (s\<lparr>selected := sel, selected_tasksize := szs, selected_oom_score_adj := adjs,
               max_selected_oom_idx := m\<rparr>) i = akey adjs szs i"
  by (simp_all add: slot_key_def)

lemma akey_update:
  "i < length adjs \<Longrightarrow> i < length szs \<Longrightarrow>
   akey (adjs[n := oom_score_adj p]) (szs[n := tasksize_of p]) i =
     (if i = n then key p else akey adjs szs i)"
  by (simp add: akey_def key_def nth_list_update)

lemma select_task_inv_fill:
  assumes inv: "pool_inv es s" and lt: "all_selected_oom s < LOWMEM_DEATHPENDING_DEPTH"
  shows "pool_inv (es @ [p]) (select_task p (oom_score_adj p) (tasksize_of p) s)"
proof -
  let ?K = LOWMEM_DEATHPENDING_DEPTH
  let ?n = "all_selected_oom s"
  from inv have len: "length (selected s) = ?K" "length (selected_tasksize s) = ?K"
      "length (selected_oom_score_adj s) = ?K"
    and cnt: "?n = min ?K (length es)"
    and slots: "\<And>i. i < ?K \<Longrightarrow>
        (if i < ?n then (\<exists>p. selected s ! i = Some p \<and> p \<in> set es \<and> slot_key s i = key p)
         else selected s ! i = None)"
    and cover: "\<And>q. q \<in> set es \<Longrightarrow> Some q \<in> set (selected s)
        \<or> (?n = ?K \<and> key q \<le> slot_key s (max_selected_oom_idx s))"
    unfolding pool_inv_def by blast+
  have n_len: "?n = length es" using cnt lt by simp
  have ff: "first_free_slot (selected s) [0..<?K] = Some ?n"
  proof (rule first_free_slot_upt)
    show "0 \<le> ?n" by simp
    show "?n < ?K" by (rule lt)
    show "selected s ! i \<noteq> None" if "0 \<le> i" "i < ?n" for i
      using slots [of i] that lt by auto
    show "selected s ! ?n = None" using slots [of ?n] lt by simp
  qed
  let ?adjs = "(selected_oom_score_adj s)[?n := oom_score_adj p]"
  let ?szs = "(selected_tasksize s)[?n := tasksize_of p]"
  let ?sel = "(selected s)[?n := Some p]"
  let ?m = "if Suc ?n = ?K then weakest_loop ?adjs ?szs [0..<?K] ?n else ?n"
  let ?s' = "s\<lparr>selected := ?sel, selected_tasksize := ?szs, selected_oom_score_adj := ?adjs,
               max_selected_oom_idx := ?m, all_selected_oom := Suc ?n\<rparr>"
  have eq: "select_task p (oom_score_adj p) (tasksize_of p) s = ?s'"
    by (rule select_task_fill [OF lt ff])
  have I1: "length (selected ?s') = ?K" "length (selected_tasksize ?s') = ?K"
      "length (selected_oom_score_adj ?s') = ?K"
    using len by simp_all
  have I2: "all_selected_oom ?s' = min ?K (length (es @ [p]))"
    using n_len lt by simp
  have I3: "if i < all_selected_oom ?s'
            then (\<exists>q. selected ?s' ! i = Some q \<and> q \<in> set (es @ [p]) \<and> slot_key ?s' i = key q)
            else selected ?s' ! i = None" if iK: "i < ?K" for i
  proof (cases "i = ?n")
    case True
    then show ?thesis using len lt by (simp add: slot_key_update akey_update)
  next
    case False
    then show ?thesis
      using slots [OF iK] len iK
      by (auto simp: slot_key_update akey_update slot_key_def)
  qed
  have I4: "max_selected_oom_idx ?s' < ?K
            \<and> (\<forall>i<?K. slot_key ?s' (max_selected_oom_idx ?s') \<le> slot_key ?s' i)"
    if full: "all_selected_oom ?s' = ?K"
  proof -
    from full have m: "max_selected_oom_idx ?s' = weakest_loop ?adjs ?szs [0..<?K] ?n" by simp
    from weakest_loop_min [of ?adjs ?szs "[0..<?K]" ?n] lt
    show ?thesis unfolding m by (auto simp: slot_key_update)
  qed
  have I5: "Some q \<in> set (selected ?s')
            \<or> (all_selected_oom ?s' = ?K \<and> key q \<le> slot_key ?s' (max_selected_oom_idx ?s'))"
    if q: "q \<in> set (es @ [p])" for q
  proof (cases "q \<in> set es")
    case True
    with cover [of q] lt have "Some q \<in> set (selected s)" by simp
    then obtain i where i: "i < length (selected s)" "selected s ! i = Some q"
      by (auto simp: in_set_conv_nth)
    have "i \<noteq> ?n" using slots [of ?n] lt i by auto
    then have "?sel ! i = Some q" using i by simp
    then have "Some q \<in> set ?sel" using i(1) by (metis length_list_update nth_mem)
    then show ?thesis by simp
  next
    case False
    with q have "q = p" by simp
    then have "?sel ! ?n = Some q" using len lt by simp
    then have "Some q \<in> set ?sel" using len lt by (metis length_list_update nth_mem)
    then show ?thesis by simp
  qed
  show ?thesis
    unfolding eq pool_inv_def using I1 I2 I3 I4 I5 by blast
qed

lemma select_task_inv_full:
  assumes inv: "pool_inv es s" and full: "all_selected_oom s = LOWMEM_DEATHPENDING_DEPTH"
  shows "pool_inv (es @ [p]) (select_task p (oom_score_adj p) (tasksize_of p) s)"
proof -
  let ?K = LOWMEM_DEATHPENDING_DEPTH
  let ?m = "max_selected_oom_idx s"
  from inv full have len: "length (selected s) = ?K" "length (selected_tasksize s) = ?K"
      "length (selected_oom_score_adj s) = ?K"
    and cnt: "?K \<le> length es"
    and slots: "\<And>i. i < ?K \<Longrightarrow> \<exists>p. selected s ! i = Some p \<and> p \<in> set es \<and> slot_key s i = key p"
    and mK: "?m < ?K"
    and weakest: "\<And>i. i < ?K \<Longrightarrow> slot_key s ?m \<le> slot_key s i"
    and cover: "\<And>q. q \<in> set es \<Longrightarrow> Some q \<in> set (selected s) \<or> key q \<le> slot_key s ?m"
    unfolding pool_inv_def by (simp_all add: min_def split: if_splits)
  show ?thesis
  proof (cases "slot_key s ?m < key p")
    case False
    then have eq: "select_task p (oom_score_adj p) (tasksize_of p) s = s"
      by (rule select_task_keep [OF full])
    have I2: "all_selected_oom s = min ?K (length (es @ [p]))"
      using full cnt by simp
    have I3: "if i < all_selected_oom s
              then (\<exists>q. selected s ! i = Some q \<and> q \<in> set (es @ [p]) \<and> slot_key s i = key q)
              else selected s ! i = None" if "i < ?K" for i
      using slots [OF that] that full by auto
    have I4: "?m < ?K \<and> (\<forall>i<?K. slot_key s ?m \<le> slot_key s i)"
      using mK weakest by simp
    have I5: "Some q \<in> set (selected s) \<or> (all_selected_oom s = ?K \<and> key q \<le> slot_key s ?m)"
      if "q \<in> set (es @ [p])" for q
      using that cover [of q] full False by auto
    show ?thesis
      unfolding eq pool_inv_def using len I2 I3 I4 I5 by blast
  next
    case True
    let ?adjs = "(selected_oom_score_adj s)[?m := oom_score_adj p]"
    let ?szs = "(selected_tasksize s)[?m := tasksize_of p]"
    let ?sel = "(selected s)[?m := Some p]"
    let ?m' = "weakest_loop ?adjs ?szs [0..<?K] ?m"
    let ?s' = "s\<lparr>selected := ?sel, selected_tasksize := ?szs, selected_oom_score_adj := ?adjs,
                 max_selected_oom_idx := ?m'\<rparr>"
    have eq: "select_task p (oom_score_adj p) (tasksize_of p) s = ?s'"
      by (rule select_task_replace [OF full True])
    have newkey: "slot_key ?s' i = (if i = ?m then key p else slot_key s i)" if "i < ?K" for i
      using that len by (simp add: slot_key_update akey_update) (simp add: slot_key_def)
    have m'K: "?m' < ?K"
      using weakest_loop_min [of ?adjs ?szs "[0..<?K]" ?m] mK by auto
    have m'min: "slot_key ?s' ?m' \<le> slot_key ?s' i" if "i < ?K" for i
      using weakest_loop_min [of ?adjs ?szs "[0..<?K]" ?m] that
      by (auto simp: slot_key_update)
    have old_le: "slot_key s ?m \<le> slot_key ?s' ?m'"
      using newkey [OF m'K] weakest [OF m'K] True by (auto simp: less_imp_le)
    have I1: "length (selected ?s') = ?K" "length (selected_tasksize ?s') = ?K"
        "length (selected_oom_score_adj ?s') = ?K"
      using len by simp_all
    have I2: "all_selected_oom ?s' = min ?K (length (es @ [p]))"
      using full cnt by simp
    have I3: "if i < all_selected_oom ?s'
              then (\<exists>q. selected ?s' ! i = Some q \<and> q \<in> set (es @ [p]) \<and> slot_key ?s' i = key q)
              else selected ?s' ! i = None" if iK: "i < ?K" for i
    proof (cases "i = ?m")
      case True
      then show ?thesis using len iK full newkey [OF iK] by simp
    next
      case False
      then show ?thesis using slots [OF iK] len iK full newkey [OF iK] by auto
    qed
    have I4: "max_selected_oom_idx ?s' < ?K
              \<and> (\<forall>i<?K. slot_key ?s' (max_selected_oom_idx ?s') \<le> slot_key ?s' i)"
      using m'K m'min by simp
    have I5: "Some q \<in> set (selected ?s')
              \<or> (all_selected_oom ?s' = ?K \<and> key q \<le> slot_key ?s' (max_selected_oom_idx ?s'))"
      if q: "q \<in> set (es @ [p])" for q
    proof (cases "q = p")
      case True
      then have "?sel ! ?m = Some q" using len mK by simp
      then have "Some q \<in> set ?sel" using len mK by (metis length_list_update nth_mem)
      then show ?thesis by simp
    next
      case False
      with q have qes: "q \<in> set es" by simp
      show ?thesis
      proof (cases "key q \<le> slot_key s ?m")
        case True
        then have "key q \<le> slot_key ?s' ?m'" using old_le by (rule order_trans)
        then show ?thesis using full by simp
      next
        case False
        with cover [OF qes] have "Some q \<in> set (selected s)" by simp
        then obtain i where i: "i < length (selected s)" "selected s ! i = Some q"
          by (auto simp: in_set_conv_nth)
        have "i \<noteq> ?m"
        proof
          assume "i = ?m"
          with slots [OF mK] i have "slot_key s ?m = key q" by simp
          with False show False by simp
        qed
        then have "?sel ! i = Some q" using i by simp
        then have "Some q \<in> set ?sel" using i(1) by (metis length_list_update nth_mem)
        then show ?thesis by simp
      qed
    qed
    show ?thesis
      unfolding eq pool_inv_def using I1 I2 I3 I4 I5 by blast
  qed
qed

lemma select_task_inv:
  "pool_inv es s \<Longrightarrow> pool_inv (es @ [p]) (select_task p (oom_score_adj p) (tasksize_of p) s)"
proof -
  assume inv: "pool_inv es s"
  then have "all_selected_oom s \<le> LOWMEM_DEATHPENDING_DEPTH"
    by (simp add: pool_inv_def)
  then consider "all_selected_oom s < LOWMEM_DEATHPENDING_DEPTH"
    | "all_selected_oom s = LOWMEM_DEATHPENDING_DEPTH"
    by linarith
  then show ?thesis
    using inv by cases (simp_all add: select_task_inv_fill select_task_inv_full)
qed

lemma for_each_process_inv:
  "pool_inv es s \<Longrightarrow> for_each_process jiffies timeout c tasks s = Some s' \<Longrightarrow>
   pool_inv (es @ filter (eligible c) tasks) s'"
proof (induction tasks arbitrary: es s)
  case Nil
  then show ?case by simp
next
  case (Cons t tasks)
  from Cons.prems(2) obtain s1 where
    s1: "scan_task jiffies timeout c t s = Some s1"
    and rest: "for_each_process jiffies timeout c tasks s1 = Some s'"
    by (auto split: option.splits)
  show ?case
  proof (cases "eligible c t")
    case True
    with s1 have "s1 = select_task t (oom_score_adj t) (tasksize_of t) s"
      by (simp add: scan_task_cases split: if_splits)
    then have "pool_inv (es @ [t]) s1"
      using Cons.prems(1) by (simp add: select_task_inv)
    from Cons.IH [OF this rest] True show ?thesis by simp
  next
    case False
    with s1 have "s1 = s" by (simp add: scan_task_cases split: if_splits)
    with Cons.IH [OF Cons.prems(1)] rest False show ?thesis by simp
  qed
qed

lemma set_pool_of: "set (pool_of s) = {p. Some p \<in> set (selected s)}"
  by (auto simp: pool_of_def split: option.splits)

lemma kill_loop_killed:
  "killed (kill_loop jiffies hz s is r) =
     killed r @ concat (map (\<lambda>i. case selected s ! i of None \<Rightarrow> [] | Some p \<Rightarrow> [p]) is)"
  by (induction "is" arbitrary: r) (auto split: option.splits)

lemma kill_loop_pool:
  assumes "length (selected s) = LOWMEM_DEATHPENDING_DEPTH"
  shows "killed (kill_loop jiffies hz s [0..<LOWMEM_DEATHPENDING_DEPTH] r) = killed r @ pool_of s"
proof -
  have "map (\<lambda>i. case selected s ! i of None \<Rightarrow> [] | Some p \<Rightarrow> [p]) [0..<length (selected s)]
        = map (\<lambda>x. case x of None \<Rightarrow> [] | Some p \<Rightarrow> [p]) (map (\<lambda>i. selected s ! i) [0..<length (selected s)])"
    by simp
  also have "\<dots> = map (\<lambda>x. case x of None \<Rightarrow> [] | Some p \<Rightarrow> [p]) (selected s)"
    by (simp only: map_nth)
  finally show ?thesis
    using assms by (simp add: kill_loop_killed pool_of_def)
qed

lemma filled_prefix_length:
  "n \<le> length xs \<Longrightarrow> (\<And>i. i < length xs \<Longrightarrow> (i < n \<longrightarrow> xs ! i \<noteq> None) \<and> (n \<le> i \<longrightarrow> xs ! i = None)) \<Longrightarrow>
   length (concat (map (\<lambda>x. case x of None \<Rightarrow> [] | Some p \<Rightarrow> [p]) xs)) = n"
proof (induction xs arbitrary: n)
  case Nil
  then show ?case by simp
next
  case (Cons x xs)
  show ?case
  proof (cases n)
    case 0
    have "x = None" using Cons.prems(2) [of 0] 0 by simp
    moreover have "length (concat (map (\<lambda>x. case x of None \<Rightarrow> [] | Some p \<Rightarrow> [p]) xs)) = 0"
    proof (rule Cons.IH)
      show "0 \<le> length xs" by simp
      show "(i < 0 \<longrightarrow> xs ! i \<noteq> None) \<and> (0 \<le> i \<longrightarrow> xs ! i = None)" if "i < length xs" for i
        using Cons.prems(2) [of "Suc i"] that 0 by simp
    qed
    ultimately show ?thesis using 0 by simp
  next
    case (Suc n')
    have "x \<noteq> None" using Cons.prems(2) [of 0] Suc by simp
    moreover have "length (concat (map (\<lambda>x. case x of None \<Rightarrow> [] | Some p \<Rightarrow> [p]) xs)) = n'"
    proof (rule Cons.IH)
      show "n' \<le> length xs" using Cons.prems(1) Suc by simp
      show "(i < n' \<longrightarrow> xs ! i \<noteq> None) \<and> (n' \<le> i \<longrightarrow> xs ! i = None)" if "i < length xs" for i
        using Cons.prems(2) [of "Suc i"] that Suc by simp
    qed
    ultimately show ?thesis using Suc by auto
  qed
qed

lemma pool_inv_length:
  assumes "pool_inv es s"
  shows "length (pool_of s) = min LOWMEM_DEATHPENDING_DEPTH (length es)"
proof -
  have "length (pool_of s) = all_selected_oom s"
    unfolding pool_of_def
  proof (rule filled_prefix_length)
    show "all_selected_oom s \<le> length (selected s)"
      using assms by (simp add: pool_inv_def)
    show "(i < all_selected_oom s \<longrightarrow> selected s ! i \<noteq> None)
          \<and> (all_selected_oom s \<le> i \<longrightarrow> selected s ! i = None)" if "i < length (selected s)" for i
    proof -
      from assms that have "if i < all_selected_oom s
           then (\<exists>p. selected s ! i = Some p \<and> p \<in> set es \<and> slot_key s i = key p)
           else selected s ! i = None"
        unfolding pool_inv_def by metis
      then show ?thesis by (auto split: if_splits)
    qed
  qed
  then show ?thesis using assms by (simp add: pool_inv_def)
qed

lemma pool_inv_member:
  assumes "pool_inv es s" and "p \<in> set (pool_of s)"
  shows "p \<in> set es"
proof -
  from assms(2) have "Some p \<in> set (selected s)" by (simp add: set_pool_of)
  then obtain i where i: "i < length (selected s)" "selected s ! i = Some p"
    by (auto simp: in_set_conv_nth)
  with assms(1) have "if i < all_selected_oom s
           then (\<exists>p. selected s ! i = Some p \<and> p \<in> set es \<and> slot_key s i = key p)
           else selected s ! i = None"
    unfolding pool_inv_def by metis
  with i show ?thesis by (auto split: if_splits)
qed

lemma pool_inv_outsider:
  assumes inv: "pool_inv es s" and q: "q \<in> set es" "q \<notin> set (pool_of s)"
  shows "\<exists>p\<in>set (pool_of s). \<not> dominates q p"
proof -
  let ?m = "max_selected_oom_idx s"
  from inv q have full: "all_selected_oom s = LOWMEM_DEATHPENDING_DEPTH"
    and le: "key q \<le> slot_key s ?m"
    unfolding pool_inv_def set_pool_of by auto
  from inv full have mK: "?m < LOWMEM_DEATHPENDING_DEPTH"
    unfolding pool_inv_def by simp
  from inv mK full obtain p where p: "selected s ! ?m = Some p" "slot_key s ?m = key p"
    unfolding pool_inv_def by (metis (no_types, lifting))
  from inv mK have "?m < length (selected s)" by (simp add: pool_inv_def)
  with p(1) have "Some p \<in> set (selected s)" by (metis nth_mem)
  then have "p \<in> set (pool_of s)" by (simp add: set_pool_of)
  moreover have "\<not> dominates q p" using le p(2) by (simp add: dominates_key not_less)
  ultimately show ?thesis by blast
qed

section \<open>Claims\<close>

subsection \<open>Profile switch: round trip\<close>

text \<open>
  C6. Starting from any state (the interactive profile being active), one
  transition to non-interactive followed by one transition back leaves
  \<open>lowmem_minfree\<close> exactly as it was, and neither transition touches the
  cutoff-score array \<open>lowmem_adj\<close>.
\<close>

theorem screen_cycle_restores_minfree:
  "lowmem_minfree (low_mem_late_resume (low_mem_early_suspend g)) = lowmem_minfree g
   \<and> lowmem_adj (low_mem_early_suspend g) = lowmem_adj g
   \<and> lowmem_adj (low_mem_late_resume g) = lowmem_adj g
   \<and> lowmem_adj (low_mem_late_resume (low_mem_early_suspend g)) = lowmem_adj g"
  by (simp add: low_mem_early_suspend_def low_mem_late_resume_def Let_def)

text \<open>
  C7. Two transitions to non-interactive in a row overwrite the interactive
  backup \<open>lowmem_minfree_screen_on\<close> with the non-interactive values, so the
  next transition to interactive loads the non-interactive values; the original
  table comes back only if it was equal to the non-interactive one.
\<close>

theorem double_suspend_loses_backup:
  "lowmem_minfree_screen_on (low_mem_early_suspend (low_mem_early_suspend g))
     = lowmem_minfree_screen_off g
   \<and> lowmem_minfree (low_mem_late_resume (low_mem_early_suspend (low_mem_early_suspend g)))
     = lowmem_minfree_screen_off g
   \<and> (lowmem_minfree (low_mem_late_resume (low_mem_early_suspend (low_mem_early_suspend g)))
        = lowmem_minfree g
      \<longleftrightarrow> lowmem_minfree_screen_off g = lowmem_minfree g)"
  by (simp add: low_mem_early_suspend_def low_mem_late_resume_def Let_def)

subsection \<open>Threshold evaluation\<close>

text \<open>
  C1, as amended. For every table and sample, ascending or not, the evaluator
  selects the smallest index \<open>k\<close> below the effective length at which the
  tier test holds. The test is \<open>other_free < lowmem_minfree[k]\<close> together
  with \<open>other_file < lowmem_minfree[k]\<close> in the default build, and
  \<open>other_file < lowmem_minfree[k]\<close> alone when \<open>CONFIG_VMWARE_MVP\<close> is
  set; no build tests the free pages alone. \<open>lowmem_adj[k]\<close> becomes
  \<open>min_score_adj\<close>. When the test holds at no index, \<open>min_score_adj\<close> stays
  \<open>OOM_SCORE_ADJ_MAX + 1\<close> and the pass returns the estimate with no kill.
\<close>

theorem threshold_eval_first_breached:
  "(0 \<le> k \<and> k < effective_array_size g
      \<and> (if vmware_mvp then other_file_of vm <s lowmem_minfree g ! nat k
          else other_free_of vm <s lowmem_minfree g ! nat k
               \<and> other_file_of vm <s lowmem_minfree g ! nat k)
      \<and> (\<forall>j. 0 \<le> j \<and> j < k \<longrightarrow>
             \<not> (if vmware_mvp then other_file_of vm <s lowmem_minfree g ! nat j
                else other_free_of vm <s lowmem_minfree g ! nat j
                     \<and> other_file_of vm <s lowmem_minfree g ! nat j))
    \<longrightarrow> fst (threshold_eval vmware_mvp g vm) =
          \<lparr>loop_i = k, min_score_adj = lowmem_adj g ! nat k,
           target_free = lowmem_minfree g ! nat k - (other_free_of vm + other_file_of vm)\<rparr>)
   \<and> ((\<forall>j. 0 \<le> j \<and> j < effective_array_size g \<longrightarrow>
             \<not> (if vmware_mvp then other_file_of vm <s lowmem_minfree g ! nat j
                else other_free_of vm <s lowmem_minfree g ! nat j
                     \<and> other_file_of vm <s lowmem_minfree g ! nat j))
    \<longrightarrow> min_score_adj (fst (threshold_eval vmware_mvp g vm)) = word_of_int (OOM_SCORE_ADJ_MAX + 1)
        \<and> lowmem_shrink vmware_mvp hz g vm jiffies tasks nr_to_scan =
            \<lparr>ret = nr_active_anon vm + nr_active_file vm
                    + nr_inactive_anon vm + nr_inactive_file vm,
             killed = [], state_after = g\<rparr>)"
proof (intro conjI impI)
  assume h: "0 \<le> k \<and> k < effective_array_size g
      \<and> (if vmware_mvp then other_file_of vm <s lowmem_minfree g ! nat k
          else other_free_of vm <s lowmem_minfree g ! nat k
               \<and> other_file_of vm <s lowmem_minfree g ! nat k)
      \<and> (\<forall>j. 0 \<le> j \<and> j < k \<longrightarrow>
             \<not> (if vmware_mvp then other_file_of vm <s lowmem_minfree g ! nat j
                else other_free_of vm <s lowmem_minfree g ! nat j
                     \<and> other_file_of vm <s lowmem_minfree g ! nat j))"
  then have k: "0 \<le> k" "k < effective_array_size g"
    and b: "tier_breached vmware_mvp (other_free_of vm) (other_file_of vm) (lowmem_minfree g ! nat k)"
    and nb: "\<And>j. 0 \<le> j \<Longrightarrow> j < k \<Longrightarrow>
        \<not> tier_breached vmware_mvp (other_free_of vm) (other_file_of vm) (lowmem_minfree g ! nat j)"
    unfolding tier_breached_def by blast+
  show "fst (threshold_eval vmware_mvp g vm) =
          \<lparr>loop_i = k, min_score_adj = lowmem_adj g ! nat k,
           target_free = lowmem_minfree g ! nat k - (other_free_of vm + other_file_of vm)\<rparr>"
    unfolding threshold_eval_def by (rule threshold_loop_first [OF k b nb])
next
  assume h: "\<forall>j. 0 \<le> j \<and> j < effective_array_size g \<longrightarrow>
             \<not> (if vmware_mvp then other_file_of vm <s lowmem_minfree g ! nat j
                else other_free_of vm <s lowmem_minfree g ! nat j
                     \<and> other_file_of vm <s lowmem_minfree g ! nat j)"
  then have nb: "\<And>j. 0 \<le> j \<Longrightarrow> j < effective_array_size g \<Longrightarrow>
        \<not> tier_breached vmware_mvp (other_free_of vm) (other_file_of vm) (lowmem_minfree g ! nat j)"
    unfolding tier_breached_def by blast
  have m: "min_score_adj (fst (threshold_eval vmware_mvp g vm)) = word_of_int (OOM_SCORE_ADJ_MAX + 1)"
    unfolding threshold_eval_def using threshold_loop_none [OF nb] by simp
  show "min_score_adj (fst (threshold_eval vmware_mvp g vm)) = word_of_int (OOM_SCORE_ADJ_MAX + 1)"
    by (rule m)
  have "sint (min_score_adj (fst (threshold_eval vmware_mvp g vm))) = OOM_SCORE_ADJ_MAX + 1"
    by (simp only: m sint_sentinel)
  then show "lowmem_shrink vmware_mvp hz g vm jiffies tasks nr_to_scan =
            \<lparr>ret = nr_active_anon vm + nr_active_file vm
                    + nr_inactive_anon vm + nr_inactive_file vm,
             killed = [], state_after = g\<rparr>"
    by (simp add: lowmem_shrink_def split_def Let_def)
qed

text \<open>
  The header comment's tables with 3000 free and 3000 file pages: tier 1 and
  cutoff 8. With 5000 and 5000 no tier is breached.
\<close>

theorem threshold_eval_first_breached_witness:
  "effective_array_size example_state = 2
   \<and> other_free_of (vm_sample 3000 3000) = 3000 \<and> other_file_of (vm_sample 3000 3000) = 3000
   \<and> lowmem_minfree example_state ! 0 = 1024 \<and> lowmem_minfree example_state ! 1 = 4096
   \<and> fst (threshold_eval False example_state (vm_sample 3000 3000)) =
        \<lparr>loop_i = 1, min_score_adj = 8, target_free = 4096 - 6000\<rparr>
   \<and> min_score_adj (fst (threshold_eval False example_state (vm_sample 5000 5000))) = 1001"
proof -
  have e: "effective_array_size example_state = 2"
    by (simp add: effective_array_size_def example_state_def initial_state_def
          ARRAY_SIZE_lowmem_adj_def)
  have v: "other_free_of (vm_sample 3000 3000) = 3000" "other_file_of (vm_sample 3000 3000) = 3000"
      "other_free_of (vm_sample 5000 5000) = 5000" "other_file_of (vm_sample 5000 5000) = 5000"
    by (simp_all add: other_free_of_def other_file_of_def vm_sample_def)
  have t: "lowmem_minfree example_state = [1024, 4096, 4096, 5120, 8192, 16384]"
      "lowmem_adj example_state = [0, 8, 6, 12, 16, 17]"
    by (simp_all add: example_state_def initial_state_def)
  have lt2: "(0 \<le> j \<and> j < 2) = (j = 0 \<or> j = 1)" for j :: int by auto
  have lt1: "(0 \<le> j \<and> j < 1) = (j = 0)" for j :: int by auto
  have a: "fst (threshold_eval False example_state (vm_sample 3000 3000)) =
        \<lparr>loop_i = 1, min_score_adj = 8, target_free = 4096 - 6000\<rparr>"
    using threshold_eval_first_breached [of 1 example_state False "vm_sample 3000 3000"]
    by (simp add: e v t lt1 word_sless_alt)
  have b: "min_score_adj (fst (threshold_eval False example_state (vm_sample 5000 5000))) = 1001"
    using threshold_eval_first_breached [of 0 example_state False "vm_sample 5000 5000"]
    by (simp add: e v t lt2 word_sless_alt OOM_SCORE_ADJ_MAX_def)
  show ?thesis using e v t a b by simp
qed

text \<open>
  With 100 free and 5000 file pages the free count is below
  \<open>lowmem_minfree[0]\<close>, yet neither build selects a tier: the loop runs to
  the end of the table.
\<close>

theorem threshold_free_only_counterexample:
  "effective_array_size example_state = 2
   \<and> other_free_of (vm_sample 100 5000) = 100
   \<and> other_free_of (vm_sample 100 5000) <s lowmem_minfree example_state ! 0
   \<and> min_score_adj (fst (threshold_eval False example_state (vm_sample 100 5000))) = 1001
   \<and> min_score_adj (fst (threshold_eval True example_state (vm_sample 100 5000))) = 1001
   \<and> loop_i (fst (threshold_eval False example_state (vm_sample 100 5000))) = 2
   \<and> loop_i (fst (threshold_eval True example_state (vm_sample 100 5000))) = 2"
  by code_simp

subsection \<open>Count-only queries and quiet samples\<close>

text \<open>
  C8. When the scan budget is zero, or no tier is breached by the sample, the
  pass returns the sum of the active and inactive anonymous and file page
  counts (an \<open>int\<close>, so the sum of the 32-bit counters), kills nothing and
  leaves the module state alone, whatever the process list holds: the list is
  not scanned.
\<close>

theorem count_only_or_no_breach:
  assumes "nr_to_scan = 0 \<or>
           (\<forall>i. 0 \<le> i \<and> i < effective_array_size g \<longrightarrow>
                \<not> tier_breached vmware_mvp (other_free_of vm) (other_file_of vm)
                     (lowmem_minfree g ! nat i))"
  shows "lowmem_shrink vmware_mvp hz g vm jiffies tasks nr_to_scan =
           \<lparr>ret = nr_active_anon vm + nr_active_file vm
                   + nr_inactive_anon vm + nr_inactive_file vm,
            killed = [], state_after = g\<rparr>"
proof (cases "nr_to_scan = 0")
  case True
  then show ?thesis by (simp add: lowmem_shrink_def split_def Let_def)
next
  case False
  with assms have nb: "\<And>j. 0 \<le> j \<Longrightarrow> j < effective_array_size g \<Longrightarrow>
      \<not> tier_breached vmware_mvp (other_free_of vm) (other_file_of vm) (lowmem_minfree g ! nat j)"
    by blast
  have "min_score_adj (fst (threshold_eval vmware_mvp g vm)) = word_of_int (OOM_SCORE_ADJ_MAX + 1)"
    unfolding threshold_eval_def using threshold_loop_none [OF nb] by simp
  then have "sint (min_score_adj (fst (threshold_eval vmware_mvp g vm))) = OOM_SCORE_ADJ_MAX + 1"
    by (simp only: sint_sentinel)
  then show ?thesis
    by (simp add: lowmem_shrink_def split_def Let_def)
qed

text \<open>
  A count-only query under pressure, and a scan request with 20000 free and
  20000 file pages: both return the estimate 1000.
\<close>

theorem count_only_or_no_breach_witness:
  "lowmem_shrink False 250 initial_state (vm_sample 1000 1000) 0 scenario_tasks 0 =
     \<lparr>ret = 1000, killed = [], state_after = initial_state\<rparr>
   \<and> effective_array_size initial_state = 6
   \<and> \<not> tier_breached False (other_free_of (vm_sample 20000 20000))
         (other_file_of (vm_sample 20000 20000)) 16384
   \<and> lowmem_shrink False 250 initial_state (vm_sample 20000 20000) 0 scenario_tasks 128 =
     \<lparr>ret = 1000, killed = [], state_after = initial_state\<rparr>"
proof -
  have e: "effective_array_size initial_state = 6"
    by (simp add: effective_array_size_def initial_state_def ARRAY_SIZE_lowmem_adj_def)
  have v: "other_free_of (vm_sample 20000 20000) = 20000"
      "other_file_of (vm_sample 20000 20000) = 20000"
    by (simp_all add: other_free_of_def other_file_of_def vm_sample_def)
  have t: "lowmem_minfree initial_state = [1536, 2048, 4096, 5120, 8192, 16384]"
    by (simp add: initial_state_def)
  have r: "nr_active_anon (vm_sample a b) + nr_active_file (vm_sample a b)
           + nr_inactive_anon (vm_sample a b) + nr_inactive_file (vm_sample a b) = 1000" for a b
    by (simp add: vm_sample_def)
  have lt6: "(0 \<le> j \<and> j < 6) = (j = 0 \<or> j = 1 \<or> j = 2 \<or> j = 3 \<or> j = 4 \<or> j = 5)"
    for j :: int by auto
  have a: "lowmem_shrink False 250 initial_state (vm_sample 1000 1000) 0 scenario_tasks 0 =
     \<lparr>ret = 1000, killed = [], state_after = initial_state\<rparr>"
    using count_only_or_no_breach [of 0 initial_state False "vm_sample 1000 1000" 250 0 scenario_tasks]
    by (simp add: r)
  have b: "lowmem_shrink False 250 initial_state (vm_sample 20000 20000) 0 scenario_tasks 128 =
     \<lparr>ret = 1000, killed = [], state_after = initial_state\<rparr>"
    using count_only_or_no_breach [of 128 initial_state False "vm_sample 20000 20000" 250 0 scenario_tasks]
    by (simp add: r e v t lt6 tier_breached_def word_sless_alt)
  have c: "\<not> tier_breached False (other_free_of (vm_sample 20000 20000))
         (other_file_of (vm_sample 20000 20000)) 16384"
    by (simp add: v tier_breached_def word_sless_alt)
  show ?thesis using a b c e by simp
qed

subsection \<open>The pending-death guard\<close>

text \<open>
  C5, as amended. If the scan is entered (positive budget, a cutoff found) and
  the process list holds a process that is not kernel-owned, whose memory is
  still accessible, and that carries the pending-death marker while the
  deadline has not elapsed, the pass returns zero, kills nothing and leaves the
  module state alone, however many candidates precede that process.
  Kernel-owned processes and processes without accessible memory are skipped
  before the marker is looked at.
\<close>

theorem pending_death_aborts:
  assumes "nr_to_scan \<noteq> 0"
    and "sint (min_score_adj (fst (threshold_eval vmware_mvp g vm))) \<noteq> OOM_SCORE_ADJ_MAX + 1"
    and "p \<in> set tasks"
    and "\<not> pf_kthread p" and "mm_rss p \<noteq> None" and "tif_memdie p"
    and "time_before_eq jiffies (lowmem_deathpending_timeout g)"
  shows "lowmem_shrink vmware_mvp hz g vm jiffies tasks nr_to_scan =
           \<lparr>ret = 0, killed = [], state_after = g\<rparr>"
proof -
  have "guard_fires jiffies (lowmem_deathpending_timeout g) p"
    using assms by (simp add: guard_fires_def)
  then have "for_each_process jiffies (lowmem_deathpending_timeout g)
               (min_score_adj (fst (threshold_eval vmware_mvp g vm))) tasks
               (init_selection (min_score_adj (fst (threshold_eval vmware_mvp g vm)))) = None"
    using assms(3) by (rule for_each_process_abort [rotated])
  then show ?thesis
    using assms(1,2) by (simp add: lowmem_shrink_def split_def Let_def)
qed

text \<open>A victim still running, met after one candidate was already gathered.\<close>

theorem pending_death_aborts_witness:
  "sint (min_score_adj (fst (threshold_eval False
      (initial_state\<lparr>lowmem_deathpending_timeout := 1000\<rparr>) (vm_sample 1000 1000)))) = 0
   \<and> dying_victim \<in> set [candidate 1 5 10, dying_victim, candidate 2 5 50]
   \<and> \<not> pf_kthread dying_victim \<and> mm_rss dying_victim \<noteq> None \<and> tif_memdie dying_victim
   \<and> time_before_eq 900 1000
   \<and> lowmem_shrink False 250 (initial_state\<lparr>lowmem_deathpending_timeout := 1000\<rparr>)
        (vm_sample 1000 1000) 900 [candidate 1 5 10, dying_victim, candidate 2 5 50] 128 =
      \<lparr>ret = 0, killed = [],
       state_after = initial_state\<lparr>lowmem_deathpending_timeout := 1000\<rparr>\<rparr>"
proof -
  let ?g = "initial_state\<lparr>lowmem_deathpending_timeout := 1000\<rparr>"
  have m: "sint (min_score_adj (fst (threshold_eval False ?g (vm_sample 1000 1000)))) = 0"
    by code_simp
  have d: "\<not> pf_kthread dying_victim" "mm_rss dying_victim \<noteq> None" "tif_memdie dying_victim"
    by (simp_all add: dying_victim_def)
  have t: "time_before_eq 900 (lowmem_deathpending_timeout ?g)"
    by (simp add: time_before_eq_def word_sle_eq)
  have i: "dying_victim \<in> set [candidate 1 5 10, dying_victim, candidate 2 5 50]" by simp
  have n: "(128 :: ulong) \<noteq> 0" by simp
  have m': "sint (min_score_adj (fst (threshold_eval False ?g (vm_sample 1000 1000))))
            \<noteq> OOM_SCORE_ADJ_MAX + 1"
    by (simp add: m OOM_SCORE_ADJ_MAX_def)
  have "lowmem_shrink False 250 ?g (vm_sample 1000 1000) 900
          [candidate 1 5 10, dying_victim, candidate 2 5 50] 128 =
        \<lparr>ret = 0, killed = [], state_after = ?g\<rparr>"
    by (rule pending_death_aborts [OF n m' i d t])
  then show ?thesis using m d t i by simp
qed

text \<open>
  A victim that carries the marker inside the cooldown window but has released
  its memory does not stop the pass: the next candidate is killed and the
  return value is not zero.
\<close>

theorem exited_victim_counterexample:
  "tif_memdie exited_victim
   \<and> time_before_eq 900 (lowmem_deathpending_timeout
        (initial_state\<lparr>lowmem_deathpending_timeout := 1000\<rparr>))
   \<and> lowmem_shrink False 250 (initial_state\<lparr>lowmem_deathpending_timeout := 1000\<rparr>)
        (vm_sample 1000 1000) 900 [exited_victim, candidate 1 5 10] 128 =
      \<lparr>ret = 990, killed = [candidate 1 5 10],
       state_after = initial_state\<lparr>lowmem_deathpending_timeout := 1150\<rparr>\<rparr>"
  by code_simp

subsection \<open>The candidate pool at the end of a scan\<close>

text \<open>
  C2. When the scan completes, every process in the pool comes from the list
  and is eligible for the cutoff, and no eligible process of the list that is
  outside the pool strictly dominates every process in it (higher score wins,
  larger size among equal scores).
\<close>

theorem pool_invariant:
  assumes "for_each_process jiffies timeout cutoff tasks (init_selection cutoff) = Some s"
  shows "(\<forall>p\<in>set (pool_of s). p \<in> set tasks \<and> eligible cutoff p)
         \<and> (\<forall>q\<in>set tasks. eligible cutoff q \<and> q \<notin> set (pool_of s) \<longrightarrow>
               \<not> (\<forall>p\<in>set (pool_of s). dominates q p))"
proof -
  have inv: "pool_inv (filter (eligible cutoff) tasks) s"
    using for_each_process_inv [OF pool_inv_init assms] by simp
  have "p \<in> set tasks \<and> eligible cutoff p" if "p \<in> set (pool_of s)" for p
    using pool_inv_member [OF inv that] by simp
  moreover have "\<not> (\<forall>p\<in>set (pool_of s). dominates q p)"
    if "q \<in> set tasks" "eligible cutoff q" "q \<notin> set (pool_of s)" for q
    using pool_inv_outsider [OF inv _ that(3)] that(1,2) by auto
  ultimately show ?thesis by blast
qed

text \<open>
  The scenario of C4 with cutoff 5: \<open>(5,50)\<close> is eligible and left out, and
  does not dominate the pool.
\<close>

theorem pool_invariant_witness:
  "for_each_process 0 0 5 scenario_tasks (init_selection 5) =
     Some \<lparr>selected = [Some (candidate 4 8 20), Some (candidate 5 9 5), Some (candidate 3 8 10)],
           selected_tasksize = [20, 5, 10], selected_oom_score_adj = [8, 9, 8],
           all_selected_oom = 3, max_selected_oom_idx = 2\<rparr>
   \<and> candidate 2 5 50 \<in> set scenario_tasks \<and> eligible 5 (candidate 2 5 50)
   \<and> \<not> (\<forall>p\<in>set [candidate 4 8 20, candidate 5 9 5, candidate 3 8 10].
            dominates (candidate 2 5 50) p)
   \<and> eligible 5 (candidate 4 8 20)"
proof -
  let ?s = "\<lparr>selected = [Some (candidate 4 8 20), Some (candidate 5 9 5), Some (candidate 3 8 10)],
           selected_tasksize = [20, 5, 10], selected_oom_score_adj = [8, 9, 8],
           all_selected_oom = 3, max_selected_oom_idx = 2\<rparr>"
  have run: "for_each_process 0 0 5 scenario_tasks (init_selection 5) = Some ?s"
    by code_simp
  have pool: "pool_of ?s = [candidate 4 8 20, candidate 5 9 5, candidate 3 8 10]"
    by (simp add: pool_of_def)
  have q: "candidate 2 5 50 \<in> set scenario_tasks" "eligible 5 (candidate 2 5 50)"
    by (simp_all add: scenario_tasks_def candidate_def eligible_def tasksize_of_def
          word_sle_eq word_sless_alt)
  have q3: "candidate 2 5 50 \<notin> set (pool_of ?s)"
    unfolding pool by (simp add: candidate_def)
  from pool_invariant [OF run] q q3
  have "\<not> (\<forall>p\<in>set (pool_of ?s). dominates (candidate 2 5 50) p)"
    and "eligible 5 (candidate 4 8 20)"
    unfolding pool by auto
  then show ?thesis using run q(1,2) unfolding pool by simp
qed

subsection \<open>Table reads stay below the effective length\<close>

text \<open>
  C9. Whatever the two configured lengths are, every read of
  \<open>lowmem_minfree\<close> and of \<open>lowmem_adj\<close> made by the threshold loop is at
  an index from \<open>0\<close> up to, and not including, the minimum of the two lengths
  and of the array size 6; with lengths 4 and 6 (either way round) every index
  read is below 4.
\<close>

theorem reads_below_effective_length:
  assumes "r \<in> set (snd (threshold_eval vmware_mvp g vm))"
  shows "0 \<le> read_index r
         \<and> read_index r < min (min (lowmem_adj_size g) (lowmem_minfree_size g)) ARRAY_SIZE_lowmem_adj
         \<and> (if lowmem_adj_size g = 4 \<and> lowmem_minfree_size g = 6
               \<or> lowmem_adj_size g = 6 \<and> lowmem_minfree_size g = 4
            then read_index r < 4 else True)"
proof -
  have e: "effective_array_size g
           = min (min (lowmem_adj_size g) (lowmem_minfree_size g)) ARRAY_SIZE_lowmem_adj"
    by (simp add: effective_array_size_def Let_def min_def)
  from assms have "0 \<le> read_index r \<and> read_index r < effective_array_size g"
    unfolding threshold_eval_def by (rule threshold_loop_reads)
  then show ?thesis
    unfolding e by (auto simp: ARRAY_SIZE_lowmem_adj_def)
qed

text \<open>
  Four cutoff scores, six minfree values and no tier breached: the loop reads
  \<open>lowmem_minfree\<close> at 0, 1, 2 and 3 and stops.
\<close>

theorem reads_below_effective_length_witness:
  "snd (threshold_eval False (initial_state\<lparr>lowmem_adj_size := 4\<rparr>) (vm_sample 20000 20000))
     = [Read_minfree 0, Read_minfree 1, Read_minfree 2, Read_minfree 3]
   \<and> lowmem_adj_size (initial_state\<lparr>lowmem_adj_size := 4\<rparr>) = 4
   \<and> lowmem_minfree_size (initial_state\<lparr>lowmem_adj_size := 4\<rparr>) = 6
   \<and> 0 \<le> read_index (Read_minfree 3) \<and> read_index (Read_minfree 3) < 4"
proof -
  let ?g = "initial_state\<lparr>lowmem_adj_size := 4\<rparr>"
  have tr: "snd (threshold_eval False ?g (vm_sample 20000 20000))
     = [Read_minfree 0, Read_minfree 1, Read_minfree 2, Read_minfree 3]"
    by code_simp
  have sz: "lowmem_adj_size ?g = 4" "lowmem_minfree_size ?g = 6"
    by (simp_all add: initial_state_def)
  have "Read_minfree 3 \<in> set (snd (threshold_eval False ?g (vm_sample 20000 20000)))"
    unfolding tr by simp
  from reads_below_effective_length [OF this]
  have "0 \<le> read_index (Read_minfree 3) \<and> read_index (Read_minfree 3) < 4"
    by (simp add: sz)
  then show ?thesis using tr sz by simp
qed

subsection \<open>How many processes are killed\<close>

text \<open>
  C3. In a pass with a positive scan budget in which the pending-death guard
  fires on no process, the number of processes selected and killed is at most
  \<open>K = LOWMEM_DEATHPENDING_DEPTH = 3\<close> and at least the minimum of \<open>K\<close>
  and the number of processes eligible for the cutoff the evaluator found.
  Scores are the kernel's \<open>oom_score_adj\<close> values, which do not exceed
  \<open>OOM_SCORE_ADJ_MAX\<close>; so the bounds also hold when no tier is breached
  (the cutoff is then \<open>OOM_SCORE_ADJ_MAX + 1\<close> and nothing is eligible).
\<close>

theorem victims_between_bounds:
  assumes budget: "nr_to_scan \<noteq> 0"
    and range: "\<forall>p\<in>set tasks. sint (oom_score_adj p) \<le> OOM_SCORE_ADJ_MAX"
    and calm: "\<forall>p\<in>set tasks. \<not> guard_fires jiffies (lowmem_deathpending_timeout g) p"
  shows "length (killed (lowmem_shrink vmware_mvp hz g vm jiffies tasks nr_to_scan))
           \<le> LOWMEM_DEATHPENDING_DEPTH
         \<and> min LOWMEM_DEATHPENDING_DEPTH
               (length (filter (eligible (min_score_adj (fst (threshold_eval vmware_mvp g vm)))) tasks))
             \<le> length (killed (lowmem_shrink vmware_mvp hz g vm jiffies tasks nr_to_scan))"
proof -
  let ?c = "min_score_adj (fst (threshold_eval vmware_mvp g vm))"
  let ?es = "filter (eligible ?c) tasks"
  let ?rem = "nr_active_anon vm + nr_active_file vm + nr_inactive_anon vm + nr_inactive_file vm"
  have "length (killed (lowmem_shrink vmware_mvp hz g vm jiffies tasks nr_to_scan))
          = min LOWMEM_DEATHPENDING_DEPTH (length ?es)"
  proof (cases "sint ?c = OOM_SCORE_ADJ_MAX + 1")
    case True
    have "\<not> eligible ?c p" if "p \<in> set tasks" for p
      using range that True by (auto simp: eligible_def word_sle_eq)
    then have "?es = []" by (simp add: filter_empty_conv)
    moreover have "killed (lowmem_shrink vmware_mvp hz g vm jiffies tasks nr_to_scan) = []"
      using True by (simp add: lowmem_shrink_def split_def Let_def)
    ultimately show ?thesis by simp
  next
    case False
    from calm obtain s where
      s: "for_each_process jiffies (lowmem_deathpending_timeout g) ?c tasks (init_selection ?c) = Some s"
      using for_each_process_completes [of tasks jiffies "lowmem_deathpending_timeout g" ?c
          "init_selection ?c"] by blast
    have inv: "pool_inv ?es s"
      using for_each_process_inv [OF pool_inv_init s] by simp
    then have len: "length (selected s) = LOWMEM_DEATHPENDING_DEPTH"
      by (simp add: pool_inv_def)
    have "lowmem_shrink vmware_mvp hz g vm jiffies tasks nr_to_scan =
            kill_loop jiffies hz s [0..<LOWMEM_DEATHPENDING_DEPTH]
              \<lparr>ret = ?rem, killed = [], state_after = g\<rparr>"
      using False budget s by (simp add: lowmem_shrink_def split_def Let_def)
    then have "killed (lowmem_shrink vmware_mvp hz g vm jiffies tasks nr_to_scan) = pool_of s"
      by (simp add: kill_loop_pool [OF len])
    then show ?thesis by (simp add: pool_inv_length [OF inv])
  qed
  then show ?thesis by simp
qed

text \<open>Five eligible processes under the initial tables: three are killed.\<close>

theorem victims_between_bounds_witness:
  "min_score_adj (fst (threshold_eval False initial_state (vm_sample 1000 1000))) = 0
   \<and> length (filter (eligible 0) scenario_tasks) = 5
   \<and> length (killed (lowmem_shrink False 250 initial_state (vm_sample 1000 1000) 0
                       scenario_tasks 128)) = 3"
proof -
  have c: "min_score_adj (fst (threshold_eval False initial_state (vm_sample 1000 1000))) = 0"
    by code_simp
  have e: "filter (eligible 0) scenario_tasks = scenario_tasks"
    by (simp add: scenario_tasks_def candidate_def eligible_def tasksize_of_def
          word_sle_eq word_sless_alt)
  have l: "length scenario_tasks = 5" by (simp add: scenario_tasks_def)
  have n: "(128 :: ulong) \<noteq> 0" by simp
  have r: "\<forall>p\<in>set scenario_tasks. sint (oom_score_adj p) \<le> OOM_SCORE_ADJ_MAX"
    by (simp add: scenario_tasks_def candidate_def OOM_SCORE_ADJ_MAX_def)
  have q: "\<forall>p\<in>set scenario_tasks.
             \<not> guard_fires 0 (lowmem_deathpending_timeout initial_state) p"
    by (simp add: scenario_tasks_def candidate_def guard_fires_def)
  from victims_between_bounds [OF n r q, of False 250 "vm_sample 1000 1000"]
  have "length (killed (lowmem_shrink False 250 initial_state (vm_sample 1000 1000) 0
                       scenario_tasks 128)) = 3"
    unfolding c e l by (simp add: LOWMEM_DEATHPENDING_DEPTH_def)
  then show ?thesis using c e l by simp
qed

subsection \<open>The scenario with five candidates\<close>

text \<open>
  C4. With three slots and the eligible candidates \<open>(5,10)\<close>, \<open>(5,50)\<close>,
  \<open>(8,10)\<close>, \<open>(8,20)\<close>, \<open>(9,5)\<close> arriving in this order, the scan ends
  with the pool \<open>{(9,5), (8,20), (8,10)}\<close> (slots 0, 1, 2 hold \<open>(8,20)\<close>,
  \<open>(9,5)\<close>, \<open>(8,10)\<close>), for every cutoff that makes the five eligible.
\<close>

theorem scenario_pool:
  assumes "cutoff \<le>s 5"
  shows "map_option (\<lambda>s. map (\<lambda>p. (oom_score_adj p, tasksize_of p)) (pool_of s))
           (for_each_process jiffies timeout cutoff scenario_tasks (init_selection cutoff))
         = Some [(8, 20), (9, 5), (8, 10)]
         \<and> map_option (\<lambda>s. set (map (\<lambda>p. (oom_score_adj p, tasksize_of p)) (pool_of s)))
           (for_each_process jiffies timeout cutoff scenario_tasks (init_selection cutoff))
         = Some {(9, 5), (8, 20), (8, 10)}"
proof -
  have el: "eligible cutoff (candidate i 5 10)" "eligible cutoff (candidate i 5 50)"
      "eligible cutoff (candidate i 8 10)" "eligible cutoff (candidate i 8 20)"
      "eligible cutoff (candidate i 9 5)" for i
    using assms by (simp_all add: eligible_def candidate_def tasksize_of_def word_sle_eq word_sless_alt)
  have ng: "\<not> guard_fires jiffies timeout (candidate i a r)" for i a r
    by (simp add: guard_fires_def candidate_def)
  have f: "oom_score_adj (candidate i a r) = a" "tasksize_of (candidate i a r) = r" for i a r
    by (simp_all add: candidate_def tasksize_of_def)
  have r3: "replicate 3 x = [x, x, x]" for x :: 'a
    by (simp add: numeral_3_eq_3)
  have run: "for_each_process jiffies timeout cutoff scenario_tasks (init_selection cutoff) =
     Some \<lparr>selected = [Some (candidate 4 8 20), Some (candidate 5 9 5), Some (candidate 3 8 10)],
           selected_tasksize = [20, 5, 10], selected_oom_score_adj = [8, 9, 8],
           all_selected_oom = 3, max_selected_oom_idx = 2\<rparr>"
    by (simp add: scenario_tasks_def scan_task_cases el ng f select_task_def init_selection_def
          LOWMEM_DEATHPENDING_DEPTH_def Let_def word_sless_alt upt_rec r3)
  show ?thesis
    unfolding run by (auto simp: pool_of_def f)
qed

text \<open>The scenario at cutoff 0.\<close>

theorem scenario_pool_witness:
  "(0 :: short) \<le>s 5
   \<and> map_option (\<lambda>s. set (map (\<lambda>p. (oom_score_adj p, tasksize_of p)) (pool_of s)))
           (for_each_process 0 0 0 scenario_tasks (init_selection 0))
         = Some {(9, 5), (8, 20), (8, 10)}"
proof -
  have h: "(0 :: short) \<le>s 5" by (simp add: word_sle_eq)
  from scenario_pool [OF h, of 0 0] h show ?thesis by simp
qed

subsection \<open>Legacy cutoff rescale\<close>

lemma ucast_of_int_short: "(ucast (word_of_int k :: cint) :: short) = word_of_int k"
  by transfer simp

lemma sint_scast_short: "sint (scast (old :: short) :: cint) = sint old"
  by (rule sint_up_scast) (simp add: is_up)

lemma sint_times_score_max:
  "sint ((scast (old :: short) :: cint) * word_of_int OOM_SCORE_ADJ_MAX)
   = sint old * OOM_SCORE_ADJ_MAX"
proof -
  have r: "- (2 ^ 15) \<le> sint old" "sint old < 2 ^ 15"
    using sint_ge [of old] sint_lt [of old] by simp_all
  have k: "sint (word_of_int OOM_SCORE_ADJ_MAX :: cint) = 1000"
    by (simp add: OOM_SCORE_ADJ_MAX_def)
  have "sint ((scast old :: cint) * word_of_int OOM_SCORE_ADJ_MAX)
        = signed_take_bit 31 (sint old * 1000)"
    by (simp add: sint_word_ariths sint_scast_short k)
  also have "\<dots> = sint old * 1000"
    using r by (intro signed_take_bit_int_eq_self) simp_all
  finally show ?thesis by (simp add: OOM_SCORE_ADJ_MAX_def)
qed

lemma convert_is_legacy_rescale:
  "(ucast (lowmem_oom_adj_to_oom_score_adj (scast old)) :: short) = legacy_rescale old"
  by (cases "sint old = OOM_ADJUST_MAX")
     (simp_all only: lowmem_oom_adj_to_oom_score_adj_def legacy_rescale_def sint_scast_short
        sint_times_score_max ucast_of_int_short if_True if_False simp_thms)

declare autodetect_loop.simps [simp del]

lemma autodetect_loop_length: "length (autodetect_loop adj n i) = length adj"
proof (induction adj n i rule: autodetect_loop.induct)
  case (1 adj n i)
  show ?case
  proof (cases "i < n")
    case True
    with "1.IH" show ?thesis by (subst autodetect_loop.simps) simp
  next
    case False
    then show ?thesis by (subst autodetect_loop.simps) simp
  qed
qed

lemma autodetect_loop_nth:
  "n \<le> length adj \<Longrightarrow> j < length adj \<Longrightarrow>
   autodetect_loop adj n i ! j = (if i \<le> j \<and> j < n then legacy_rescale (adj ! j) else adj ! j)"
proof (induction adj n i rule: autodetect_loop.induct)
  case (1 adj n i)
  show ?case
  proof (cases "i < n")
    case True
    let ?adj' = "adj[i := ucast (lowmem_oom_adj_to_oom_score_adj (scast (adj ! i)))]"
    have step: "autodetect_loop adj n i = autodetect_loop ?adj' n (Suc i)"
      using True by (subst autodetect_loop.simps) simp
    have ih: "autodetect_loop ?adj' n (Suc i) ! j
              = (if Suc i \<le> j \<and> j < n then legacy_rescale (?adj' ! j) else ?adj' ! j)"
      using "1.IH" [OF True] "1.prems" by simp
    have il: "i < length adj" using True "1.prems"(1) by simp
    show ?thesis
      unfolding step ih using il True "1.prems"(2)
      by (auto simp: nth_list_update convert_is_legacy_rescale)
  next
    case False
    then show ?thesis by (subst autodetect_loop.simps) auto
  qed
qed

lemma autodetect_loop_eq:
  assumes "n \<le> length adj"
  shows "autodetect_loop adj n 0 = map legacy_rescale (take n adj) @ drop n adj"
proof (rule nth_equalityI)
  show "length (autodetect_loop adj n 0) = length (map legacy_rescale (take n adj) @ drop n adj)"
    using assms by (simp add: autodetect_loop_length)
  show "autodetect_loop adj n 0 ! j = (map legacy_rescale (take n adj) @ drop n adj) ! j"
    if "j < length (autodetect_loop adj n 0)" for j
  proof -
    from that have j: "j < length adj" by (simp add: autodetect_loop_length)
    show ?thesis
      using assms j by (simp add: autodetect_loop_nth nth_append)
  qed
qed

text \<open>
  C10, as amended. Let \<open>N\<close> be the effective length of the cutoff table (the
  configured length, at most 6). The rescale is applied if and only if \<open>N\<close>
  is positive, the last effective entry does not exceed the legacy maximum
  \<open>OOM_ADJUST_MAX\<close>, and the rescaled value of that entry, as a 16-bit
  score, is greater than \<open>OOM_ADJUST_MAX\<close>. When applied, each of the first
  \<open>N\<close> entries \<open>old\<close> becomes \<open>old * OOM_SCORE_ADJ_MAX / -OOM_DISABLE\<close>
  (the quotient truncated towards zero and stored as a 16-bit score, the
  legacy maximum going to \<open>OOM_SCORE_ADJ_MAX\<close>), the table changes, and
  nothing else does; otherwise the state is left as it was.
\<close>

theorem autodetect_rescales_legacy_table:
  assumes len: "length (lowmem_adj g) = 6"
  shows "let N = min (lowmem_adj_size g) ARRAY_SIZE_lowmem_adj;
             last_entry = lowmem_adj g ! nat (N - 1);
             applied = (0 < N \<and> sint last_entry \<le> OOM_ADJUST_MAX
                        \<and> OOM_ADJUST_MAX < sint (legacy_rescale last_entry))
         in lowmem_autodetect_oom_adj_values g =
              (if applied
               then g\<lparr>lowmem_adj := map legacy_rescale (take (nat N) (lowmem_adj g))
                                      @ drop (nat N) (lowmem_adj g)\<rparr>
               else g)
            \<and> (applied \<longleftrightarrow> lowmem_adj (lowmem_autodetect_oom_adj_values g) \<noteq> lowmem_adj g)"
proof -
  define N where "N = min (lowmem_adj_size g) ARRAY_SIZE_lowmem_adj"
  define last_entry where "last_entry = lowmem_adj g ! nat (N - 1)"
  define applied where "applied \<longleftrightarrow> 0 < N \<and> sint last_entry \<le> OOM_ADJUST_MAX
                        \<and> OOM_ADJUST_MAX < sint (legacy_rescale last_entry)"
  let ?new = "map legacy_rescale (take (nat N) (lowmem_adj g)) @ drop (nat N) (lowmem_adj g)"
  have N6: "N \<le> 6" by (simp add: N_def ARRAY_SIZE_lowmem_adj_def)
  have as: "(if lowmem_adj_size g < ARRAY_SIZE_lowmem_adj then lowmem_adj_size g
             else ARRAY_SIZE_lowmem_adj) = N"
    by (simp add: N_def min_def)
  have loop: "autodetect_loop (lowmem_adj g) (nat N) 0 = ?new"
    using N6 len by (intro autodetect_loop_eq) simp
  have eq: "lowmem_autodetect_oom_adj_values g = (if applied then g\<lparr>lowmem_adj := ?new\<rparr> else g)"
    unfolding lowmem_autodetect_oom_adj_values_def as Let_def applied_def last_entry_def
    by (simp add: convert_is_legacy_rescale sint_scast_short loop not_less)
  have changed: "?new \<noteq> lowmem_adj g" if applied
  proof
    assume same: "?new = lowmem_adj g"
    from that have pos: "0 < N" and lt: "sint last_entry < sint (legacy_rescale last_entry)"
      unfolding applied_def by simp_all
    have idx: "nat (N - 1) < nat N" "nat N \<le> length (lowmem_adj g)"
      using pos N6 len by simp_all
    have "?new ! nat (N - 1) = legacy_rescale last_entry"
      using idx by (simp add: nth_append last_entry_def)
    with same have "legacy_rescale last_entry = last_entry"
      by (simp add: last_entry_def)
    with lt show False by simp
  qed
  have iff: "applied \<longleftrightarrow> lowmem_adj (lowmem_autodetect_oom_adj_values g) \<noteq> lowmem_adj g"
    unfolding eq using changed by auto
  show ?thesis
    using eq iff unfolding Let_def N_def [symmetric] last_entry_def [symmetric] applied_def [symmetric]
    by simp
qed

text \<open>
  A legacy table is rescaled entry by entry; the initial table, whose last
  entry 17 is above the legacy maximum, is left alone.
\<close>

theorem autodetect_rescales_legacy_table_witness:
  "length (lowmem_adj legacy_state) = 6
   \<and> lowmem_adj (lowmem_autodetect_oom_adj_values legacy_state) = [0, 58, 117, 235, 529, 705]
   \<and> length (lowmem_adj initial_state) = 6
   \<and> lowmem_autodetect_oom_adj_values initial_state = initial_state"
proof -
  have l: "length (lowmem_adj legacy_state) = 6" "length (lowmem_adj initial_state) = 6"
    by (simp_all add: legacy_state_def initial_state_def)
  have t: "lowmem_adj legacy_state = [0, 1, 2, 4, 9, 12]" "lowmem_adj_size legacy_state = 6"
      "lowmem_adj initial_state = [0, 1, 6, 12, 16, 17]" "lowmem_adj_size initial_state = 6"
    by (simp_all add: legacy_state_def initial_state_def)
  have r: "legacy_rescale 0 = 0" "legacy_rescale 1 = 58" "legacy_rescale 2 = 117"
      "legacy_rescale 4 = 235" "legacy_rescale 9 = 529" "legacy_rescale 12 = 705"
    by (simp_all add: legacy_rescale_def OOM_ADJUST_MAX_def OOM_SCORE_ADJ_MAX_def OOM_DISABLE_def
          signed_divide_int_def)
  have a: "lowmem_adj (lowmem_autodetect_oom_adj_values legacy_state) = [0, 58, 117, 235, 529, 705]"
    using autodetect_rescales_legacy_table [OF l(1)]
    by (simp add: Let_def t r ARRAY_SIZE_lowmem_adj_def OOM_ADJUST_MAX_def)
  have b: "lowmem_autodetect_oom_adj_values initial_state = initial_state"
    using autodetect_rescales_legacy_table [OF l(2)]
    by (simp add: Let_def t ARRAY_SIZE_lowmem_adj_def OOM_ADJUST_MAX_def)
  show ?thesis using l a b by simp
qed

text \<open>
  The last entry of the legacy table is 12, not the legacy maximum 15, and
  the table is rescaled all the same.
\<close>

theorem last_below_legacy_maximum_counterexample:
  "lowmem_adj legacy_state = [0, 1, 2, 4, 9, 12]
   \<and> lowmem_adj_size legacy_state = 6
   \<and> sint (lowmem_adj legacy_state ! 5) = 12
   \<and> sint (lowmem_adj legacy_state ! 5) \<noteq> OOM_ADJUST_MAX
   \<and> lowmem_adj (lowmem_autodetect_oom_adj_values legacy_state) \<noteq> lowmem_adj legacy_state
   \<and> lowmem_adj (lowmem_autodetect_oom_adj_values legacy_state) = [0, 58, 117, 235, 529, 705]"
  by code_simp

end
